theory Spec2Isabelle
  imports Complex_Main "HOL-Library.Sublist"
begin

text \<open>
  A model of the VibeFit tracker, the component of \<open>src/index.tsx\<close> and the service
  worker of \<open>public/sw.js\<close>: the persisted state with its reconciliation rule, the
  entry factory, the mutations of the store, the media URL normaliser, loading and
  importing, and the message to the service worker. What the platform supplies, that
  is \<open>Date\<close>, the \<open>URL\<close> class, \<open>JSON.parse\<close>, the clock and the random generator,
  enters the model as a parameter.
\<close>

section \<open>Strings\<close>

text \<open>
  A JavaScript string is modelled by the bytes of its UTF-8 encoding (\<open>string\<close> is
  \<open>char list\<close>, and a \<open>char\<close> is a byte). ASCII text is written as a literal;
  a character beyond ASCII is written byte by byte.
\<close>

definition ws_seqs :: "string list" where
  \<comment> \<open>\<open>WhiteSpace\<close> and \<open>LineTerminator\<close> of ECMAScript, each as its UTF-8 bytes:
      U+0009..U+000D, U+0020, U+00A0, U+1680, U+2000..U+200A, U+2028, U+2029, U+202F,
      U+205F, U+3000, U+FEFF\<close>
  "ws_seqs =
    [[CHR 0x09], [CHR 0x0A], [CHR 0x0B], [CHR 0x0C], [CHR 0x0D], [CHR 0x20],
     [CHR 0xC2, CHR 0xA0],
     [CHR 0xE1, CHR 0x9A, CHR 0x80],
     [CHR 0xE2, CHR 0x80, CHR 0x80], [CHR 0xE2, CHR 0x80, CHR 0x81],
     [CHR 0xE2, CHR 0x80, CHR 0x82], [CHR 0xE2, CHR 0x80, CHR 0x83],
     [CHR 0xE2, CHR 0x80, CHR 0x84], [CHR 0xE2, CHR 0x80, CHR 0x85],
     [CHR 0xE2, CHR 0x80, CHR 0x86], [CHR 0xE2, CHR 0x80, CHR 0x87],
     [CHR 0xE2, CHR 0x80, CHR 0x88], [CHR 0xE2, CHR 0x80, CHR 0x89],
     [CHR 0xE2, CHR 0x80, CHR 0x8A],
     [CHR 0xE2, CHR 0x80, CHR 0xA8], [CHR 0xE2, CHR 0x80, CHR 0xA9],
     [CHR 0xE2, CHR 0x80, CHR 0xAF],
     [CHR 0xE2, CHR 0x81, CHR 0x9F],
     [CHR 0xE3, CHR 0x80, CHR 0x80],
     [CHR 0xEF, CHR 0xBB, CHR 0xBF]]"

function strip_front :: "string list \<Rightarrow> string \<Rightarrow> string" where
  "strip_front ws s =
     (case find (\<lambda>w. w \<noteq> [] \<and> prefix w s) ws of
        Some w \<Rightarrow> strip_front ws (drop (length w) s)
      | None \<Rightarrow> s)"
  by pat_completeness auto
termination
proof (relation "measure (\<lambda>(ws, s). length s)")
  show "wf (measure (\<lambda>(ws, s). length s))" by simp
next
  fix ws :: "string list" and s w :: string
  assume "find (\<lambda>w. w \<noteq> [] \<and> prefix w s) ws = Some w"
  then have "w \<noteq> []" and "prefix w s"
    by (auto simp: find_Some_iff)
  then have "s \<noteq> []" by auto
  with \<open>w \<noteq> []\<close> show "((ws, drop (length w) s), (ws, s)) \<in> measure (\<lambda>(ws, s). length s)"
    by simp
qed

declare strip_front.simps [simp del]

definition strip_back :: "string list \<Rightarrow> string \<Rightarrow> string" where
  "strip_back ws s = rev (strip_front (map rev ws) (rev s))"

definition trim :: "string \<Rightarrow> string" where
  \<comment> \<open>\<open>String.prototype.trim\<close>\<close>
  "trim s = strip_back ws_seqs (strip_front ws_seqs s)"

function decimal :: "nat \<Rightarrow> string" where
  \<comment> \<open>a non-negative integer in a template literal: its decimal digits\<close>
  "decimal n =
     (if n < 10 then [char_of (48 + n)]
      else decimal (n div 10) @ [char_of (48 + n mod 10)])"
  by pat_completeness auto
termination
  by (relation "measure (\<lambda>n. n)") auto

declare decimal.simps [simp del]

section \<open>The platform's \<open>Date\<close>\<close>

text \<open>
  \<open>weekdayStr\<close> reads the weekday of a date string through \<open>new Date(dateStr).getDay()\<close>.
  The platform's answer is a parameter \<open>gd\<close> of the model: \<open>gd s = Some n\<close> when
  \<open>getDay\<close> returns the number \<open>n\<close>, and \<open>None\<close> when the string is no date and
  \<open>getDay\<close> returns \<open>NaN\<close>.
\<close>

type_synonym getDay = "string \<Rightarrow> nat option"

definition digits_value :: "string \<Rightarrow> nat" where
  "digits_value s = foldl (\<lambda>a c. 10 * a + (of_char c - 48)) 0 s"

definition is_digit :: "char \<Rightarrow> bool" where
  "is_digit c = (48 \<le> (of_char c :: nat) \<and> (of_char c :: nat) \<le> 57)"

definition days_in_month :: "nat \<Rightarrow> nat \<Rightarrow> nat" where
  "days_in_month y m =
     (if m = 2 then (if y mod 4 = 0 \<and> (y mod 100 \<noteq> 0 \<or> y mod 400 = 0) then 29 else 28)
      else if m = 4 \<or> m = 6 \<or> m = 9 \<or> m = 11 then 30 else 31)"

definition days_from_civil :: "int \<Rightarrow> int \<Rightarrow> int \<Rightarrow> int" where
  \<comment> \<open>days since 1970-01-01 of a date of the proleptic Gregorian calendar\<close>
  "days_from_civil y m d =
     (let y' = (if m \<le> 2 then y - 1 else y);
          era = y' div 400;
          yoe = y' - era * 400;
          doy = (153 * (if m > 2 then m - 3 else m + 9) + 2) div 5 + d - 1;
          doe = yoe * 365 + yoe div 4 - yoe div 100 + doy
      in era * 146097 + doe - 719468)"

definition utc_getDay :: getDay where
  \<comment> \<open>a reference \<open>getDay\<close>: the date-only form \<open>YYYY-MM-DD\<close> (which ECMAScript reads
      as midnight UTC) on a host whose local time zone is UTC; any other string is
      taken as no date\<close>
  "utc_getDay s =
     (if length s = 10 \<and> s ! 4 = CHR ''-'' \<and> s ! 7 = CHR ''-''
         \<and> list_all is_digit (take 4 s) \<and> list_all is_digit (take 2 (drop 5 s))
         \<and> list_all is_digit (drop 8 s)
      then
        (let y = digits_value (take 4 s);
             m = digits_value (take 2 (drop 5 s));
             d = digits_value (drop 8 s)
         in if 1 \<le> m \<and> m \<le> 12 \<and> 1 \<le> d \<and> d \<le> days_in_month y m
            then Some (nat ((days_from_civil (int y) (int m) (int d) + 4) mod 7))
            else None)
      else None)"

definition label_Sun :: string where
  \<comment> \<open>the weekday label U+65E5, in UTF-8\<close>
  "label_Sun = [CHR 0xE6, CHR 0x97, CHR 0xA5]"

definition label_Mon :: string where
  \<comment> \<open>the weekday label U+6708, in UTF-8\<close>
  "label_Mon = [CHR 0xE6, CHR 0x9C, CHR 0x88]"

definition label_Tue :: string where
  \<comment> \<open>the weekday label U+706B, in UTF-8\<close>
  "label_Tue = [CHR 0xE7, CHR 0x81, CHR 0xAB]"

definition label_Wed :: string where
  \<comment> \<open>the weekday label U+6C34, in UTF-8\<close>
  "label_Wed = [CHR 0xE6, CHR 0xB0, CHR 0xB4]"

definition label_Thu :: string where
  \<comment> \<open>the weekday label U+6728, in UTF-8\<close>
  "label_Thu = [CHR 0xE6, CHR 0x9C, CHR 0xA8]"

definition label_Fri :: string where
  \<comment> \<open>the weekday label U+91D1, in UTF-8\<close>
  "label_Fri = [CHR 0xE9, CHR 0x87, CHR 0x91]"

definition label_Sat :: string where
  \<comment> \<open>the weekday label U+571F, in UTF-8\<close>
  "label_Sat = [CHR 0xE5, CHR 0x9C, CHR 0x9F]"

definition weekdayStr :: "getDay \<Rightarrow> string \<Rightarrow> string option" where
  \<comment> \<open>the array indexed by \<open>getDay()\<close>; an index that is \<open>NaN\<close> or beyond the array
      gives \<open>undefined\<close>, here \<open>None\<close>\<close>
  "weekdayStr gd dateStr =
     (case gd dateStr of
        None \<Rightarrow> None
      | Some n \<Rightarrow>
          (let labels = [label_Sun, label_Mon, label_Tue, label_Wed, label_Thu,
                         label_Fri, label_Sat]
           in if n < length labels then Some (labels ! n) else None))"

definition prop_key :: "string option \<Rightarrow> string" where
  \<comment> \<open>the property key a value denotes: \<open>obj[undefined]\<close> reads the property named
      \<open>undefined\<close>\<close>
  "prop_key w = (case w of Some l \<Rightarrow> l | None \<Rightarrow> ''undefined'')"

section \<open>The data model\<close>

text \<open>
  The fields \<open>id\<close>, \<open>text\<close> and \<open>done\<close> of a checklist item are named
  \<open>item_id\<close>, \<open>item_text\<close> and \<open>item_done\<close> here. A \<open>Record<string, T>\<close> is a map
  from keys to values; a date key is never the name of a member of
  \<open>Object.prototype\<close>, so a key that is not stored reads as \<open>undefined\<close>.
\<close>

record ChecklistItem =
  item_id :: string
  item_text :: string
  item_done :: bool

record Meals =
  breakfast :: string
  lunch :: string
  dinner :: string
  notes' :: string

record Entry =
  date :: string
  weight :: string
  meals :: Meals
  checklist :: "ChecklistItem list"

record Settings =
  goalWeight :: real
  weeklyMusic :: "string \<rightharpoonup> string"
  templates :: "string \<rightharpoonup> string list"

record AppState =
  entries :: "string \<rightharpoonup> Entry"
  settings :: Settings

definition template_Mon :: "string list" where
  "template_Mon =
    [[CHR 0xE8, CHR 0x82, CHR 0xA9, CHR 0xE5, CHR 0x9B, CHR 0x9E, CHR 0xE3, CHR 0x81,
     CHR 0x97, CHR 0xE3, CHR 0x82, CHR 0xB9, CHR 0xE3, CHR 0x83, CHR 0x88, CHR 0xE3,
     CHR 0x83, CHR 0xAC, CHR 0xE3, CHR 0x83, CHR 0x83, CHR 0xE3, CHR 0x83,
     CHR 0x81] @ '' 1'' @ [CHR 0xE5, CHR 0x88, CHR 0x86],
     [CHR 0xE5, CHR 0xA3, CHR 0x81, CHR 0xE3, CHR 0x83, CHR 0x97, CHR 0xE3, CHR 0x83,
     CHR 0x83, CHR 0xE3, CHR 0x82, CHR 0xB7, CHR 0xE3, CHR 0x83, CHR 0xA5, CHR 0xE3,
     CHR 0x82, CHR 0xA2, CHR 0xE3, CHR 0x83, CHR 0x83, CHR 0xE3, CHR 0x83,
     CHR 0x97] @ '' 15'' @ [CHR 0xE5, CHR 0x9B, CHR 0x9E, CHR 0xC3, CHR 0x97] @ ''2'',
     [CHR 0xE8, CHR 0x82, CHR 0xA9, CHR 0xE7, CHR 0x94, CHR 0xB2, CHR 0xE9, CHR 0xAA,
     CHR 0xA8, CHR 0xE5, CHR 0xAF, CHR 0x84, CHR 0xE3, CHR 0x81,
     CHR 0x9B] @ '' 15'' @ [CHR 0xE5, CHR 0x9B, CHR 0x9E, CHR 0xC3, CHR 0x97] @ ''2'']"

definition template_Tue :: "string list" where
  "template_Tue =
    [[CHR 0xE3, CHR 0x82, CHR 0xB9, CHR 0xE3, CHR 0x82, CHR 0xAF, CHR 0xE3, CHR 0x83,
     CHR 0xAF, CHR 0xE3, CHR 0x83, CHR 0x83, CHR 0xE3, CHR 0x83,
     CHR 0x88] @ '' 15'' @ [CHR 0xE5, CHR 0x9B, CHR 0x9E, CHR 0xC3, CHR 0x97] @ ''2'',
     [CHR 0xE3, CHR 0x82, CHR 0xAB, CHR 0xE3, CHR 0x83, CHR 0xBC, CHR 0xE3, CHR 0x83,
     CHR 0x95, CHR 0xE3, CHR 0x83, CHR 0xAC, CHR 0xE3, CHR 0x82, CHR 0xA4, CHR 0xE3,
     CHR 0x82, CHR 0xBA] @ '' 20'' @ [CHR 0xE5, CHR 0x9B, CHR 0x9E, CHR 0xC3,
     CHR 0x97] @ ''2'',
     [CHR 0xE8, CHR 0x82, CHR 0xA1, CHR 0xE9, CHR 0x96, CHR 0xA2, CHR 0xE7, CHR 0xAF,
     CHR 0x80, CHR 0xE3, CHR 0x82, CHR 0xB9, CHR 0xE3, CHR 0x83, CHR 0x88, CHR 0xE3,
     CHR 0x83, CHR 0xAC, CHR 0xE3, CHR 0x83, CHR 0x83, CHR 0xE3, CHR 0x83,
     CHR 0x81] @ '' 1'' @ [CHR 0xE5, CHR 0x88, CHR 0x86]]"

definition template_Wed :: "string list" where
  "template_Wed =
    [[CHR 0xE3, CHR 0x83, CHR 0x97, CHR 0xE3, CHR 0x83, CHR 0xA9, CHR 0xE3, CHR 0x83,
     CHR 0xB3, CHR 0xE3, CHR 0x82, CHR 0xAF] @ '' 20'' @ [CHR 0xE7, CHR 0xA7, CHR 0x92,
     CHR 0xC3, CHR 0x97] @ ''3'',
     [CHR 0xE3, CHR 0x82, CHR 0xB5, CHR 0xE3, CHR 0x82, CHR 0xA4, CHR 0xE3, CHR 0x83,
     CHR 0x89, CHR 0xE3, CHR 0x83, CHR 0x97, CHR 0xE3, CHR 0x83, CHR 0xA9, CHR 0xE3,
     CHR 0x83, CHR 0xB3, CHR 0xE3, CHR 0x82, CHR 0xAF] @ '' '' @ [CHR 0xE5, CHR 0x90,
     CHR 0x84] @ ''15'' @ [CHR 0xE7, CHR 0xA7, CHR 0x92, CHR 0xC3, CHR 0x97] @ ''2'',
     [CHR 0xE3, CHR 0x82, CHR 0xAD, CHR 0xE3, CHR 0x83, CHR 0xA3, CHR 0xE3, CHR 0x83,
     CHR 0x83, CHR 0xE3, CHR 0x83, CHR 0x88, CHR 0xE3, CHR 0x82, CHR 0xAB, CHR 0xE3,
     CHR 0x82, CHR 0xA6]]"

definition template_Thu :: "string list" where
  "template_Thu =
    [[CHR 0xE3, CHR 0x82, CHR 0xBF, CHR 0xE3, CHR 0x82, CHR 0xAA, CHR 0xE3, CHR 0x83,
     CHR 0xAB, CHR 0xE8, CHR 0x82, CHR 0xA9, CHR 0xE5, CHR 0x9B, CHR 0x9E, CHR 0xE3,
     CHR 0x81, CHR 0x97] @ '' 10'' @ [CHR 0xE5, CHR 0x9B, CHR 0x9E, CHR 0xC3,
     CHR 0x97] @ ''2'',
     [CHR 0xE3, CHR 0x82, CHR 0xB9, CHR 0xE3, CHR 0x83, CHR 0xBC, CHR 0xE3, CHR 0x83,
     CHR 0x91, CHR 0xE3, CHR 0x83, CHR 0xBC, CHR 0xE3, CHR 0x83, CHR 0x9E, CHR 0xE3,
     CHR 0x83, CHR 0xB3] @ '' 10'' @ [CHR 0xE5, CHR 0x9B, CHR 0x9E, CHR 0xC3,
     CHR 0x97] @ ''2'',
     [CHR 0xE8, CHR 0x82, CHR 0xA9, CHR 0xE7, CHR 0x94, CHR 0xB2, CHR 0xE9, CHR 0xAA,
     CHR 0xA8, CHR 0xE5, CHR 0xAF, CHR 0x84, CHR 0xE3, CHR 0x81,
     CHR 0x9B] @ '' 15'' @ [CHR 0xE5, CHR 0x9B, CHR 0x9E, CHR 0xC3, CHR 0x97] @ ''2'']"

definition template_Fri :: "string list" where
  "template_Fri =
    [[CHR 0xE3, CHR 0x82, CHR 0xB9, CHR 0xE3, CHR 0x82, CHR 0xAF, CHR 0xE3, CHR 0x83,
     CHR 0xAF, CHR 0xE3, CHR 0x83, CHR 0x83, CHR 0xE3, CHR 0x83,
     CHR 0x88] @ '' 15'' @ [CHR 0xE5, CHR 0x9B, CHR 0x9E],
     [CHR 0xE8, CHR 0x86, CHR 0x9D, CHR 0xE3, CHR 0x81, CHR 0xA4, CHR 0xE3, CHR 0x81,
     CHR 0x8D, CHR 0xE8, CHR 0x85, CHR 0x95, CHR 0xE7, CHR 0xAB, CHR 0x8B, CHR 0xE3,
     CHR 0x81, CHR 0xA6] @ '' 10'' @ [CHR 0xE5, CHR 0x9B, CHR 0x9E],
     [CHR 0xE3, CHR 0x83, CHR 0x9E, CHR 0xE3, CHR 0x82, CHR 0xA6, CHR 0xE3, CHR 0x83,
     CHR 0xB3, CHR 0xE3, CHR 0x83, CHR 0x86, CHR 0xE3, CHR 0x83, CHR 0xB3, CHR 0xE3,
     CHR 0x82, CHR 0xAF, CHR 0xE3, CHR 0x83, CHR 0xA9, CHR 0xE3, CHR 0x82, CHR 0xA4,
     CHR 0xE3, CHR 0x83, CHR 0x9E, CHR 0xE3, CHR 0x83, CHR 0xBC] @ '' 20'' @ [CHR 0xE5,
     CHR 0x9B, CHR 0x9E]]"

definition template_Sat :: "string list" where
  "template_Sat =
    [[CHR 0xE3, CHR 0x81, CHR 0x9D, CHR 0xE3, CHR 0x81, CHR 0xAE, CHR 0xE5, CHR 0xA0,
     CHR 0xB4, CHR 0xE8, CHR 0xB6, CHR 0xB3, CHR 0xE8, CHR 0xB8, CHR 0x8F, CHR 0xE3,
     CHR 0x81, CHR 0xBF] @ '' 2'' @ [CHR 0xE3, CHR 0x80, CHR 0x9C] @ ''3'' @ [CHR 0xE5,
     CHR 0x88, CHR 0x86, CHR 0xC3, CHR 0x97] @ ''2'',
     [CHR 0xE8, CHR 0x85, CHR 0x95, CHR 0xE6, CHR 0x8C, CHR 0xAF, CHR 0xE3, CHR 0x82,
     CHR 0x8A, CHR 0xE5, CHR 0xA4, CHR 0xA7, CHR 0xE3, CHR 0x81, CHR 0x8D, CHR 0xE3,
     CHR 0x81, CHR 0x8F] @ '' 1'' @ [CHR 0xE5, CHR 0x88, CHR 0x86]]"

definition template_Sun :: "string list" where
  "template_Sun =
    [[CHR 0xE5, CHR 0x85, CHR 0xA8, CHR 0xE8, CHR 0xBA, CHR 0xAB, CHR 0xE3, CHR 0x82,
     CHR 0xB9, CHR 0xE3, CHR 0x83, CHR 0x88, CHR 0xE3, CHR 0x83, CHR 0xAC, CHR 0xE3,
     CHR 0x83, CHR 0x83, CHR 0xE3, CHR 0x83, CHR 0x81] @ '' 10'' @ [CHR 0xE5, CHR 0x88,
     CHR 0x86],
     [CHR 0xE6, CHR 0xB7, CHR 0xB1, CHR 0xE5, CHR 0x91, CHR 0xBC, CHR 0xE5, CHR 0x90,
     CHR 0xB8] @ '' 1'' @ [CHR 0xE5, CHR 0x88, CHR 0x86]]"

definition defaultSettings :: Settings where
  "defaultSettings =
     \<lparr> goalWeight = 60,
       weeklyMusic = [label_Mon \<mapsto> [], label_Tue \<mapsto> [], label_Wed \<mapsto> [], label_Thu \<mapsto> [],
                      label_Fri \<mapsto> [], label_Sat \<mapsto> [], label_Sun \<mapsto> []],
       templates = [label_Mon \<mapsto> template_Mon, label_Tue \<mapsto> template_Tue,
                    label_Wed \<mapsto> template_Wed, label_Thu \<mapsto> template_Thu,
                    label_Fri \<mapsto> template_Fri, label_Sat \<mapsto> template_Sat,
                    label_Sun \<mapsto> template_Sun] \<rparr>"

section \<open>The entry factory and the reconciliation rule\<close>

text \<open>
  \<open>buildEntry\<close> reads the clock (\<open>Date.now()\<close>) and the random generator
  (\<open>Math.random().toString(36).slice(2)\<close>) once for every template line. What the two
  return is an input of the model: \<open>env i\<close> is the pair drawn while item \<open>i\<close> is
  built.
\<close>

record draw =
  clock :: nat
  token :: string

type_synonym draws = "nat \<Rightarrow> draw"

definition mk_item_id :: "string \<Rightarrow> nat \<Rightarrow> draw \<Rightarrow> string" where
  "mk_item_id dateStr i dr =
     dateStr @ ''-'' @ decimal i @ ''-'' @ decimal (clock dr) @ ''-'' @ token dr"

definition blank_meals :: Meals where
  "blank_meals = \<lparr> breakfast = [], lunch = [], dinner = [], notes' = [] \<rparr>"

definition buildEntry :: "getDay \<Rightarrow> draws \<Rightarrow> string \<Rightarrow> Settings \<Rightarrow> Entry" where
  "buildEntry gd env dateStr s =
     (let w = weekdayStr gd dateStr;
          tpl = (case templates s (prop_key w) of Some t \<Rightarrow> t | None \<Rightarrow> [])
      in \<lparr> date = dateStr,
           weight = [],
           meals = blank_meals,
           checklist =
             map (\<lambda>(i, t). \<lparr> item_id = mk_item_id dateStr i (env i),
                              item_text = t,
                              item_done = False \<rparr>)
                 (enumerate 0 tpl) \<rparr>)"

definition ensureEntry :: "getDay \<Rightarrow> draws \<Rightarrow> AppState \<Rightarrow> string \<Rightarrow> AppState" where
  \<comment> \<open>the source updates \<open>state\<close> in place; the model returns the updated state. An
      entry is an object, so \<open>!state.entries[dateStr]\<close> holds exactly when none is stored.\<close>
  "ensureEntry gd env state dateStr =
     (case entries state dateStr of
        None \<Rightarrow> state\<lparr> entries := (entries state)(dateStr \<mapsto> buildEntry gd env dateStr (settings state)) \<rparr>
      | Some _ \<Rightarrow> state)"

section \<open>The store's mutations\<close>

text \<open>
  Every mutation of the component works on \<open>JSON.parse(JSON.stringify(prev))\<close>, a deep
  copy of the state; in a model of values the copy is the state itself. The selected
  date \<open>dateStr\<close> and the rendered snapshot \<open>entry = data.entries[dateStr]\<close> are read
  from the state the mutation is applied to.
\<close>

record EntryPartial =
  p_date :: "string option"
  p_weight :: "string option"
  p_meals :: "Meals option"
  p_checklist :: "ChecklistItem list option"

definition no_fields :: EntryPartial where
  "no_fields = \<lparr> p_date = None, p_weight = None, p_meals = None, p_checklist = None \<rparr>"

definition spread :: "Entry \<Rightarrow> EntryPartial \<Rightarrow> Entry" where
  \<comment> \<open>\<open>{ ...entry, ...partial }\<close>\<close>
  "spread e p =
     \<lparr> date = (case p_date p of Some v \<Rightarrow> v | None \<Rightarrow> date e),
       weight = (case p_weight p of Some v \<Rightarrow> v | None \<Rightarrow> weight e),
       meals = (case p_meals p of Some v \<Rightarrow> v | None \<Rightarrow> meals e),
       checklist = (case p_checklist p of Some v \<Rightarrow> v | None \<Rightarrow> checklist e) \<rparr>"

definition updateEntry :: "getDay \<Rightarrow> draws \<Rightarrow> string \<Rightarrow> EntryPartial \<Rightarrow> AppState \<Rightarrow> AppState" where
  "updateEntry gd env dateStr partial prev =
     (let copy = ensureEntry gd env prev dateStr
      in case entries copy dateStr of
           Some e \<Rightarrow> copy\<lparr> entries := (entries copy)(dateStr \<mapsto> spread e partial) \<rparr>
         | None \<Rightarrow> copy)"

datatype meal_key = Breakfast | Lunch | Dinner | Notes

definition set_meal :: "meal_key \<Rightarrow> string \<Rightarrow> Meals \<Rightarrow> Meals" where
  \<comment> \<open>\<open>{ ...meals, [k]: v }\<close>\<close>
  "set_meal k v m =
     (case k of
        Breakfast \<Rightarrow> m\<lparr> breakfast := v \<rparr>
      | Lunch \<Rightarrow> m\<lparr> lunch := v \<rparr>
      | Dinner \<Rightarrow> m\<lparr> dinner := v \<rparr>
      | Notes \<Rightarrow> m\<lparr> notes' := v \<rparr>)"

definition updateMeals :: "getDay \<Rightarrow> draws \<Rightarrow> string \<Rightarrow> meal_key \<Rightarrow> string \<Rightarrow> AppState \<Rightarrow> AppState" where
  "updateMeals gd env dateStr k v data =
     (let m = (case entries data dateStr of Some entry \<Rightarrow> meals entry | None \<Rightarrow> blank_meals)
      in updateEntry gd env dateStr (no_fields\<lparr> p_meals := Some (set_meal k v m) \<rparr>) data)"

definition toggleChecklist :: "getDay \<Rightarrow> draws \<Rightarrow> string \<Rightarrow> string \<Rightarrow> AppState \<Rightarrow> AppState" where
  "toggleChecklist gd env dateStr i data =
     (case entries data dateStr of
        None \<Rightarrow> data
      | Some entry \<Rightarrow>
          updateEntry gd env dateStr
            (no_fields\<lparr> p_checklist :=
               Some (map (\<lambda>c. if item_id c = i then c\<lparr> item_done := \<not> item_done c \<rparr> else c)
                         (checklist entry)) \<rparr>)
            data)"

definition addChecklistItem :: "getDay \<Rightarrow> draws \<Rightarrow> string \<Rightarrow> string option \<Rightarrow> string \<Rightarrow> AppState \<Rightarrow> AppState" where
  \<comment> \<open>\<open>answer\<close> is what \<open>prompt\<close> returns (\<open>None\<close> for \<open>null\<close>), \<open>uid\<close> the string
      that \<open>crypto.randomUUID\<close> or the random generator gives. The checklist of an
      entry is an array, so \<open>base\<close> is the checklist.\<close>
  "addChecklistItem gd env dateStr answer uid prev =
     (let txt = trim (case answer of Some r \<Rightarrow> r | None \<Rightarrow> [])
      in if txt = [] then prev
         else
           (let copy = ensureEntry gd env prev dateStr
            in case entries copy dateStr of
                 Some e \<Rightarrow>
                   copy\<lparr> entries := (entries copy)(dateStr \<mapsto>
                     e\<lparr> checklist := checklist e @
                          [\<lparr> item_id = dateStr @ ''-'' @ uid, item_text = txt,
                             item_done = False \<rparr>] \<rparr>) \<rparr>
               | None \<Rightarrow> copy))"

definition removeChecklistItem :: "getDay \<Rightarrow> draws \<Rightarrow> string \<Rightarrow> string \<Rightarrow> AppState \<Rightarrow> AppState" where
  "removeChecklistItem gd env dateStr i prev =
     (let copy = ensureEntry gd env prev dateStr
      in case entries copy dateStr of
           Some e \<Rightarrow>
             copy\<lparr> entries := (entries copy)(dateStr \<mapsto>
               e\<lparr> checklist := filter (\<lambda>c. item_id c \<noteq> i) (checklist e) \<rparr>) \<rparr>
         | None \<Rightarrow> copy)"

section \<open>The media URL normaliser\<close>

text \<open>
  \<open>normalizeMediaUrl\<close> works through the platform's \<open>URL\<close> class. The class is a
  parameter of the model, a record of the operations the source calls; a \<open>URL\<close>
  object is a value of the type \<open>'u\<close>, and \<open>searchParams.set\<close>, which updates the object
  in place, returns the updated value.
\<close>

record 'u url_api =
  new_URL :: "string \<Rightarrow> 'u option"
  hostname :: "'u \<Rightarrow> string"
  pathname :: "'u \<Rightarrow> string"
  sp_has :: "'u \<Rightarrow> string \<Rightarrow> bool"
  sp_get :: "'u \<Rightarrow> string \<Rightarrow> string option"
  sp_set :: "'u \<Rightarrow> string \<Rightarrow> string \<Rightarrow> 'u"
  toString :: "'u \<Rightarrow> string"

definition lower :: "char \<Rightarrow> char" where
  "lower c = (if 65 \<le> (of_char c :: nat) \<and> (of_char c :: nat) \<le> 90
              then char_of ((of_char c :: nat) + 32) else c)"

definition is_relative :: "string \<Rightarrow> bool" where
  \<comment> \<open>the regular expression \<open>^(\/|\.\/|\.\.\/)\<close>\<close>
  "is_relative raw = (prefix ''/'' raw \<or> prefix ''./'' raw \<or> prefix ''../'' raw)"

definition is_http :: "string \<Rightarrow> bool" where
  \<comment> \<open>the regular expression \<open>^https?:\/\/\<close> with the flag \<open>i\<close>\<close>
  "is_http raw =
     (prefix ''http://'' (map lower raw) \<or> prefix ''https://'' (map lower raw))"

fun str_includes :: "string \<Rightarrow> string \<Rightarrow> bool" where
  "str_includes [] t = (t = [])"
| "str_includes (c # cs) t = (prefix t (c # cs) \<or> str_includes cs t)"

fun path_id :: "string \<Rightarrow> string option" where
  \<comment> \<open>the first group of the leftmost match of \<open>\/file\/d\/([^/]+)\<close>\<close>
  "path_id [] = None"
| "path_id (c # cs) =
     (if prefix ''/file/d/'' (c # cs)
         \<and> takeWhile (\<lambda>x. x \<noteq> CHR ''/'') (drop 8 (c # cs)) \<noteq> []
      then Some (takeWhile (\<lambda>x. x \<noteq> CHR ''/'') (drop 8 (c # cs)))
      else path_id cs)"

definition drive_direct :: "string \<Rightarrow> string" where
  "drive_direct fid = ''https://drive.google.com/uc?export=download&id='' @ fid"

definition normalizeMediaUrl :: "'u url_api \<Rightarrow> string \<Rightarrow> string" where
  "normalizeMediaUrl U u =
     (let raw = trim u
      in if raw = [] then []
         else if is_relative raw \<or> \<not> is_http raw then raw
         else
           (case new_URL U raw of
              None \<Rightarrow> u
            | Some url \<Rightarrow>
                (let host = hostname U url
                 in if str_includes host ''dropbox.com'' then
                      (if sp_has U url ''dl'' then toString U (sp_set U url ''dl'' ''1'')
                       else if \<not> sp_has U url ''raw''
                         then toString U (sp_set U url ''raw'' ''1'')
                       else toString U url)
                    else if str_includes host ''drive.google.com'' then
                      (let fid = (case path_id (pathname U url) of
                                    Some m \<Rightarrow> m
                                  | None \<Rightarrow>
                                      (case sp_get U url ''id'' of
                                         Some v \<Rightarrow> v
                                       | None \<Rightarrow> []))
                       in if fid \<noteq> [] then drive_direct fid else toString U url)
                    else toString U url)))"

section \<open>Settings mutations\<close>

definition setWeeklyMusic :: "'u url_api \<Rightarrow> string \<Rightarrow> string \<Rightarrow> AppState \<Rightarrow> AppState" where
  "setWeeklyMusic U weekday rawUrl prev =
     (let trimmed = trim rawUrl;
          fixed = (if trimmed \<noteq> [] then normalizeMediaUrl U trimmed else [])
      in prev\<lparr> settings := (settings prev)\<lparr> weeklyMusic :=
           (weeklyMusic (settings prev))(weekday \<mapsto> fixed) \<rparr> \<rparr>)"

definition updateList :: "string \<Rightarrow> string list \<Rightarrow> AppState \<Rightarrow> AppState" where
  \<comment> \<open>the template editor's \<open>updateList\<close> with the \<open>onChange\<close> it is given: the
      settings of the state (the editor's \<open>settings\<close> property) with the template of
      \<open>day\<close> replaced\<close>
  "updateList day nxt prev =
     prev\<lparr> settings := (settings prev)\<lparr> templates :=
       (templates (settings prev))(day \<mapsto> nxt) \<rparr> \<rparr>"

definition setGoalWeight :: "real \<Rightarrow> AppState \<Rightarrow> AppState" where
  \<comment> \<open>the \<open>onChange\<close> of the goal-weight input; \<open>g\<close> is \<open>Number(e.target.value || 0)\<close>\<close>
  "setGoalWeight g prev = prev\<lparr> settings := (settings prev)\<lparr> goalWeight := g \<rparr> \<rparr>"

definition weekdays :: "string list" where
  \<comment> \<open>the labels the settings tab and the template editor offer\<close>
  "weekdays = [label_Mon, label_Tue, label_Wed, label_Thu, label_Fri, label_Sat, label_Sun]"

section \<open>The request to the service worker\<close>

record message =
  msg_type :: string
  msg_url :: "string option"
  msg_urls :: "string list option"

datatype notice = UrlUnset | NoServiceWorker | RequestSent

definition precacheTodayMusic :: "getDay \<Rightarrow> string \<Rightarrow> AppState \<Rightarrow> bool \<Rightarrow> bool \<Rightarrow> message option \<times> notice" where
  \<comment> \<open>\<open>has_sw\<close>: the navigator has a service worker container; \<open>active\<close>: the
      registration has an active worker. Waiting for the registration is taken to
      succeed. The result is the message posted, if any, and the alert shown.\<close>
  "precacheTodayMusic gd dateStr data has_sw active =
     (let w = weekdayStr gd dateStr
      in case weeklyMusic (settings data) (prop_key w) of
           None \<Rightarrow> (None, UrlUnset)
         | Some url \<Rightarrow>
             if url = [] then (None, UrlUnset)
             else if \<not> has_sw then (None, NoServiceWorker)
             else ((if active
                    then Some \<lparr> msg_type = ''CACHE_URL'', msg_url = Some url, msg_urls = None \<rparr>
                    else None),
                   RequestSent))"

definition sw_on_message :: "message \<Rightarrow> string list" where
  \<comment> \<open>the worker's \<open>message\<close> listener: the URLs it hands to \<open>cache.addAll\<close>, none
      when it does not act on the message\<close>
  "sw_on_message m =
     (if msg_type m = ''CACHE_URLS''
      then (case msg_urls m of Some us \<Rightarrow> us | None \<Rightarrow> [])
      else [])"

section \<open>Loading and importing\<close>

text \<open>
  \<open>JSON.parse\<close> is the platform's: a parameter \<open>jp\<close>, with \<open>None\<close> where it throws.
  So is \<open>localStorage.getItem\<close>: a parameter \<open>getItem\<close> that, for a key, throws (the
  browser refuses the access to the storage, or there is no storage), returns \<open>null\<close>
  (nothing is stored under the key) or returns the stored string. The state cell of the
  component holds whatever value it is given; a value that came out of \<open>JSON.parse\<close>
  is kept as it is.
\<close>

datatype json =
  JNull | JBool bool | JNum real | JStr string | JArr "json list" | JObj "(string \<times> json) list"

type_synonym jsonParse = "string \<Rightarrow> json option"

datatype app_value = Parsed json | Typed AppState

definition LS_KEY :: string where
  "LS_KEY = ''vibefit.tracker.v1.3''"

definition initial_state :: AppState where
  "initial_state = \<lparr> entries = Map.empty, settings = defaultSettings \<rparr>"

datatype storage_read = Throws | Returns "string option"

type_synonym getItem = "string \<Rightarrow> storage_read"

definition loadData :: "jsonParse \<Rightarrow> getItem \<Rightarrow> app_value" where
  \<comment> \<open>the \<open>try\<close> block holds both the read and the parse: whichever throws, the
      \<open>catch\<close> block returns the default state\<close>
  "loadData jp getItem =
     (case getItem LS_KEY of
        Throws \<Rightarrow> Typed initial_state
      | Returns None \<Rightarrow> Typed initial_state
      | Returns (Some raw) \<Rightarrow>
          if raw = [] then Typed initial_state
          else (case jp raw of
                  Some v \<Rightarrow> Parsed v
                | None \<Rightarrow> Typed initial_state))"

definition import_failed_msg :: string where
  "import_failed_msg =
    [CHR 0xE8, CHR 0xAA, CHR 0xAD, CHR 0xE3, CHR 0x81, CHR 0xBF, CHR 0xE8, CHR 0xBE,
    CHR 0xBC, CHR 0xE3, CHR 0x81, CHR 0xBF, CHR 0xE3, CHR 0x81, CHR 0xAB, CHR 0xE5,
    CHR 0xA4, CHR 0xB1, CHR 0xE6, CHR 0x95, CHR 0x97, CHR 0xE3, CHR 0x81, CHR 0x97,
    CHR 0xE3, CHR 0x81, CHR 0xBE, CHR 0xE3, CHR 0x81, CHR 0x97, CHR 0xE3, CHR 0x81,
    CHR 0x9F, CHR 0xE3, CHR 0x80, CHR 0x82] @ ''JSON'' @ [CHR 0xE3, CHR 0x82, CHR 0x92,
    CHR 0xE7, CHR 0xA2, CHR 0xBA, CHR 0xE8, CHR 0xAA, CHR 0x8D, CHR 0xE3, CHR 0x81,
    CHR 0x97, CHR 0xE3, CHR 0x81, CHR 0xA6, CHR 0xE3, CHR 0x81, CHR 0x8F, CHR 0xE3,
    CHR 0x81, CHR 0xA0, CHR 0xE3, CHR 0x81, CHR 0x95, CHR 0xE3, CHR 0x81, CHR 0x84,
    CHR 0xE3, CHR 0x80, CHR 0x82]"

definition importJSON :: "jsonParse \<Rightarrow> string \<Rightarrow> app_value \<Rightarrow> app_value \<times> string option" where
  \<comment> \<open>\<open>contents\<close> is the text of the file; the result is the state cell after the
      import and the alert shown, if any\<close>
  "importJSON jp contents data =
     (case jp contents of
        Some parsed \<Rightarrow> (Parsed parsed, None)
      | None \<Rightarrow> (data, Some import_failed_msg))"

section \<open>A reference \<open>URL\<close> class\<close>

text \<open>
  \<open>url_ref\<close> implements the operations of \<open>url_api\<close> after the URL Standard, for the
  URLs the claims are about: an \<open>http\<close> or \<open>https\<close> URL whose authority is a host name.
  It strips leading and trailing C0 controls and spaces, removes tabs and newlines,
  lower-cases the scheme and the host, fails on an empty host and on a forbidden host
  code point, reads a backslash in the path as a slash, removes dot segments,
  percent-encodes path, query and fragment with the Standard's sets, and reads and writes
  the query as \<open>application/x-www-form-urlencoded\<close>.

  What it leaves out: user info, ports, IP-address hosts, percent-escapes in the host and
  IDNA. \<open>parse_url\<close> fails on an authority that holds \<open>@\<close>, \<open>:\<close>, \<open>[\<close>, \<open>]\<close>,
  \<open>%\<close> or a byte beyond ASCII, where the platform may succeed, and it reads a numeric host as
  a name. It fails on any scheme other than \<open>http\<close> and \<open>https\<close>; \<open>normalizeMediaUrl\<close>
  constructs a URL only from text that starts with one of the two. Strings are bytes, so
  the percent-encoding of a character beyond ASCII is that of its UTF-8 bytes, and
  percent-decoding gives the bytes back as they are.
\<close>

definition code :: "char \<Rightarrow> nat" where
  "code c = of_char c"

definition c0_or_high :: "char \<Rightarrow> bool" where
  "c0_or_high c = (code c \<le> 0x1F \<or> code c > 0x7E)"

definition fragment_set :: "char \<Rightarrow> bool" where
  "fragment_set c = (c0_or_high c \<or> c \<in> set ('' <>`'' @ [CHR 0x22]))"

definition query_set :: "char \<Rightarrow> bool" where
  "query_set c = (c0_or_high c \<or> c \<in> set ('' #<>'' @ [CHR 0x22]))"

definition special_query_set :: "char \<Rightarrow> bool" where
  "special_query_set c = (query_set c \<or> c = CHR 0x27)"

definition path_set :: "char \<Rightarrow> bool" where
  "path_set c = (query_set c \<or> c \<in> set ''?^`{}'')"

text \<open>Percent-encoding writes two upper-case hexadecimal digits; decoding reads either case.\<close>

definition hex_digit :: "nat \<Rightarrow> char" where
  "hex_digit n = (if n < 10 then char_of (48 + n) else char_of (55 + n))"

definition pct :: "char \<Rightarrow> string" where
  "pct c = [CHR ''%'', hex_digit (code c div 16), hex_digit (code c mod 16)]"

definition pct_encode :: "(char \<Rightarrow> bool) \<Rightarrow> string \<Rightarrow> string" where
  "pct_encode P s = concat (map (\<lambda>c. if P c then pct c else [c]) s)"

definition hex_val :: "char \<Rightarrow> nat option" where
  "hex_val c =
     (if 48 \<le> code c \<and> code c \<le> 57 then Some (code c - 48)
      else if 65 \<le> code c \<and> code c \<le> 70 then Some (code c - 55)
      else if 97 \<le> code c \<and> code c \<le> 102 then Some (code c - 87)
      else None)"

fun pct_decode :: "string \<Rightarrow> string" where
  "pct_decode (p # a # b # s) =
     (if p = CHR ''%'' then
        (case (hex_val a, hex_val b) of
           (Some h, Some l) \<Rightarrow> char_of (16 * h + l) # pct_decode s
         | _ \<Rightarrow> p # pct_decode (a # b # s))
      else p # pct_decode (a # b # s))"
| "pct_decode s = s"

text \<open>\<open>splitf P s\<close> cuts \<open>s\<close> at every character that satisfies \<open>P\<close>.\<close>

fun splitf :: "(char \<Rightarrow> bool) \<Rightarrow> string \<Rightarrow> string list" where
  "splitf P [] = [[]]"
| "splitf P (c # cs) =
     (if P c then [] # splitf P cs
      else (case splitf P cs of
              x # xs \<Rightarrow> (c # x) # xs
            | [] \<Rightarrow> [[c]]))"

record url =
  u_scheme :: string
  u_host :: string
  u_path :: "string list"
  u_query :: "string option"
  u_fragment :: "string option"

definition host_ok :: "char \<Rightarrow> bool" where
  "host_ok c = (0x20 < code c \<and> code c < 0x7F \<and> c \<notin> set (''#/:<>?@[]^|%'' @ [CHR 0x5C]))"

text \<open>
  The path state of the parser: a double-dot segment drops the last segment of the path
  built so far, a single-dot segment adds nothing, and either leaves an empty segment
  when it is the last one.
\<close>

definition is_single_dot :: "string \<Rightarrow> bool" where
  "is_single_dot b = (b = ''.'' \<or> map lower b = ''%2e'')"

definition is_double_dot :: "string \<Rightarrow> bool" where
  "is_double_dot b = (map lower b \<in> set [''..'', ''.%2e'', ''%2e.'', ''%2e%2e''])"

fun walk :: "string list \<Rightarrow> string list \<Rightarrow> string list" where
  "walk [] acc = acc"
| "walk (seg # rest) acc =
     (let b = pct_encode path_set seg
      in if is_double_dot b then walk rest (butlast acc @ (if rest = [] then [[]] else []))
         else if is_single_dot b then walk rest (acc @ (if rest = [] then [[]] else []))
         else walk rest (acc @ [b]))"

definition is_sep :: "char \<Rightarrow> bool" where
  "is_sep c = (c = CHR ''/'' \<or> c = CHR 0x5C)"

definition c0_or_space :: "char \<Rightarrow> bool" where
  "c0_or_space c = (code c \<le> 0x20)"

definition tab_or_newline :: "char \<Rightarrow> bool" where
  "tab_or_newline c = (c = CHR 0x09 \<or> c = CHR 0x0A \<or> c = CHR 0x0D)"

definition clean :: "string \<Rightarrow> string" where
  "clean input =
     filter (\<lambda>c. \<not> tab_or_newline c)
       (rev (dropWhile c0_or_space (rev (dropWhile c0_or_space input))))"

definition in_authority :: "char \<Rightarrow> bool" where
  "in_authority c = (\<not> is_sep c \<and> c \<noteq> CHR ''?'' \<and> c \<noteq> CHR ''#'')"

definition in_path :: "char \<Rightarrow> bool" where
  "in_path c = (c \<noteq> CHR ''?'' \<and> c \<noteq> CHR ''#'')"

definition query_of :: "string \<Rightarrow> string option" where
  "query_of r =
     (case r of
        c # t \<Rightarrow> if c = CHR ''?''
                   then Some (pct_encode special_query_set (takeWhile (\<lambda>c. c \<noteq> CHR ''#'') t))
                   else None
      | [] \<Rightarrow> None)"

definition after_query :: "string \<Rightarrow> string" where
  "after_query r =
     (case r of
        c # t \<Rightarrow> if c = CHR ''?'' then dropWhile (\<lambda>c. c \<noteq> CHR ''#'') t else r
      | [] \<Rightarrow> [])"

definition fragment_of :: "string \<Rightarrow> string option" where
  "fragment_of r = (case r of c # t \<Rightarrow> Some (pct_encode fragment_set t) | [] \<Rightarrow> None)"

definition parse_url :: "string \<Rightarrow> url option" where
  "parse_url input =
     (let s1 = clean input;
          l = map lower s1
      in if \<not> (prefix ''http:'' l \<or> prefix ''https:'' l) then None
         else
           (let scheme = (if prefix ''https:'' l then ''https'' else ''http'');
                r0 = dropWhile is_sep (drop (length scheme + 1) s1);
                authority = takeWhile in_authority r0;
                r1 = dropWhile in_authority r0
            in if authority = [] \<or> \<not> list_all host_ok authority then None
               else
                 Some \<lparr> u_scheme = scheme,
                        u_host = map lower authority,
                        u_path = walk (splitf is_sep (tl (takeWhile in_path r1))) [],
                        u_query = query_of (dropWhile in_path r1),
                        u_fragment = fragment_of (after_query (dropWhile in_path r1)) \<rparr>))"

definition path_string :: "url \<Rightarrow> string" where
  "path_string u = concat (map (\<lambda>seg. CHR ''/'' # seg) (u_path u))"

definition href :: "url \<Rightarrow> string" where
  "href u =
     u_scheme u @ ''://'' @ u_host u @ path_string u
       @ (case u_query u of None \<Rightarrow> [] | Some q \<Rightarrow> CHR ''?'' # q)
       @ (case u_fragment u of None \<Rightarrow> [] | Some f \<Rightarrow> CHR ''#'' # f)"

text \<open>\<open>URLSearchParams\<close>: the query as a list of name-value pairs.\<close>

definition form_safe :: "char \<Rightarrow> bool" where
  "form_safe c =
     ((48 \<le> code c \<and> code c \<le> 57) \<or> (65 \<le> code c \<and> code c \<le> 90)
      \<or> (97 \<le> code c \<and> code c \<le> 122) \<or> c \<in> set ''*-._'')"

definition form_encode :: "string \<Rightarrow> string" where
  "form_encode s =
     concat (map (\<lambda>c. if c = CHR '' '' then ''+'' else if form_safe c then [c] else pct c) s)"

definition form_decode :: "string \<Rightarrow> string" where
  "form_decode s = pct_decode (map (\<lambda>c. if c = CHR ''+'' then CHR '' '' else c) s)"

definition qs_pair :: "string \<Rightarrow> string \<times> string" where
  "qs_pair sq =
     (form_decode (takeWhile (\<lambda>c. c \<noteq> CHR ''='') sq),
      form_decode (case dropWhile (\<lambda>c. c \<noteq> CHR ''='') sq of [] \<Rightarrow> [] | c # v \<Rightarrow> v))"

definition qs_parse :: "string \<Rightarrow> (string \<times> string) list" where
  "qs_parse q = map qs_pair (filter (\<lambda>sq. sq \<noteq> []) (splitf (\<lambda>c. c = CHR ''&'') q))"

fun join_amp :: "string list \<Rightarrow> string" where
  "join_amp [] = []"
| "join_amp [x] = x"
| "join_amp (x # y # ys) = x @ CHR ''&'' # join_amp (y # ys)"

definition qs_serialize :: "(string \<times> string) list \<Rightarrow> string" where
  "qs_serialize l = join_amp (map (\<lambda>(n, v). form_encode n @ CHR ''='' # form_encode v) l)"

fun set_first :: "string \<Rightarrow> string \<Rightarrow> (string \<times> string) list \<Rightarrow> (string \<times> string) list" where
  "set_first k v [] = []"
| "set_first k v ((n, x) # l) =
     (if n = k then (k, v) # filter (\<lambda>p. fst p \<noteq> k) l else (n, x) # set_first k v l)"

definition set_pair :: "string \<Rightarrow> string \<Rightarrow> (string \<times> string) list \<Rightarrow> (string \<times> string) list" where
  "set_pair k v l = (if list_ex (\<lambda>p. fst p = k) l then set_first k v l else l @ [(k, v)])"

definition params :: "url \<Rightarrow> (string \<times> string) list" where
  "params u = qs_parse (case u_query u of None \<Rightarrow> [] | Some q \<Rightarrow> q)"

definition url_ref :: "url url_api" where
  "url_ref =
     \<lparr> new_URL = parse_url,
       hostname = u_host,
       pathname = path_string,
       sp_has = (\<lambda>u k. list_ex (\<lambda>p. fst p = k) (params u)),
       sp_get = (\<lambda>u k. map_option snd (find (\<lambda>p. fst p = k) (params u))),
       sp_set = (\<lambda>u k v. u\<lparr> u_query := Some (qs_serialize (set_pair k v (params u))) \<rparr>),
       toString = href \<rparr>"

section \<open>Drive ids that are read back unchanged\<close>

text \<open>
  The Drive branch writes the id it found after \<open>id=\<close> as it is, and the next pass
  reads the link with the \<open>URL\<close> class. \<open>id_safe\<close> describes the ids for which that
  gives the same link again.

  An id that is empty or starts with \<open>&\<close> or \<open>#\<close> leaves the parameter \<open>id\<close> of the link
  empty, so the next pass returns the link as the \<open>URL\<close> class serialises it: such an
  id is safe when no character of it is escaped, that is none before the first \<open>#\<close> is in
  the query percent-encode set and none after it in the fragment percent-encode set.

  Any other id is the value of the parameter \<open>id\<close>, and is safe when that value is read
  as it was written: the id holds no \<open>#\<close> or \<open>&\<close> (which end the value), no \<open>+\<close> (read
  as a space), no tab, line feed or carriage return (which the parser removes), no \<open>%\<close>
  followed by two hexadecimal digits (read as one byte), and it does not end in white
  space or a C0 control (which \<open>trim\<close> and the parser strip). A space, a quote, an
  angle bracket or a byte beyond ASCII inside the id is escaped by the parser and read
  back as itself.
\<close>

fun has_escape :: "string \<Rightarrow> bool" where
  "has_escape (p # a # b # s) =
     ((p = CHR ''%'' \<and> hex_val a \<noteq> None \<and> hex_val b \<noteq> None) \<or> has_escape (a # b # s))"
| "has_escape s = False"

definition ends_blank :: "string \<Rightarrow> bool" where
  "ends_blank s = (list_ex (\<lambda>w. suffix w s) ws_seqs \<or> (s \<noteq> [] \<and> c0_or_space (last s)))"

definition empty_param :: "string \<Rightarrow> bool" where
  \<comment> \<open>the text after \<open>id=\<close> starts no value: the parameter \<open>id\<close> of the link is empty\<close>
  "empty_param fid = (case fid of [] \<Rightarrow> True | c # cs \<Rightarrow> c = CHR ''&'' \<or> c = CHR ''#'')"

definition id_safe :: "string \<Rightarrow> bool" where
  "id_safe fid =
     (if empty_param fid then
        list_all (\<lambda>x. \<not> special_query_set x) (takeWhile (\<lambda>x. x \<noteq> CHR ''#'') fid)
        \<and> list_all (\<lambda>x. \<not> fragment_set x) (drop 1 (dropWhile (\<lambda>x. x \<noteq> CHR ''#'') fid))
      else
        list_all (\<lambda>x. x \<notin> set ''#&+'' \<and> \<not> tab_or_newline x) fid
        \<and> \<not> has_escape fid \<and> \<not> ends_blank fid)"

section \<open>Laws of a \<open>URL\<close> class\<close>

text \<open>
  \<open>url_laws\<close> collects what the idempotence of the normaliser needs from the platform.
  For a URL made by parsing text that starts with \<open>http://\<close> or \<open>https://\<close>, and for
  such a URL after \<open>searchParams.set\<close>: its serialisation is trimmed, starts with
  \<open>http://\<close> or \<open>https://\<close>, and parses to the same URL. \<open>searchParams.set\<close> keeps the
  host, makes \<open>has\<close> true for its key and leaves \<open>has\<close> as it was for every other key,
  and setting the same value again changes nothing. A Drive direct-download link with a
  safe id parses to the host \<open>drive.google.com\<close> and a path without \<open>/file/d/\<close>; its
  parameter \<open>id\<close> is that id or, where the id starts no value, is empty while the URL
  serialises to the link itself.
\<close>

definition url_stable :: "'u url_api \<Rightarrow> 'u \<Rightarrow> bool" where
  "url_stable U u =
     (trim (toString U u) = toString U u \<and> is_http (toString U u)
      \<and> \<not> is_relative (toString U u) \<and> new_URL U (toString U u) = Some u)"

definition url_laws :: "'u url_api \<Rightarrow> bool" where
  "url_laws U =
     ((\<forall>s u. is_http s \<and> new_URL U s = Some u \<longrightarrow>
          url_stable U u \<and> (\<forall>k v. url_stable U (sp_set U u k v)))
      \<and> (\<forall>u k v. hostname U (sp_set U u k v) = hostname U u)
      \<and> (\<forall>u k v k'. sp_has U (sp_set U u k v) k' = (k' = k \<or> sp_has U u k'))
      \<and> (\<forall>u k v. sp_set U (sp_set U u k v) k v = sp_set U u k v)
      \<and> (\<forall>fid. id_safe fid \<longrightarrow>
           (\<exists>u. new_URL U (drive_direct fid) = Some u
              \<and> hostname U u = ''drive.google.com''
              \<and> path_id (pathname U u) = None
              \<and> (if empty_param fid
                  then sp_get U u ''id'' = Some [] \<and> toString U u = drive_direct fid
                  else sp_get U u ''id'' = Some fid))))"

section \<open>Auxiliary notions\<close>

text \<open>
  \<open>rewrite_url\<close> is the part of \<open>normalizeMediaUrl\<close> that follows a successful
  \<open>new URL(raw)\<close>. \<open>valid_url\<close> describes the records that \<open>parse_url\<close> returns:
  every component is in the form the parser leaves it in.
\<close>

definition rewrite_url :: "'u url_api \<Rightarrow> 'u \<Rightarrow> string" where
  "rewrite_url U url =
     (let host = hostname U url
      in if str_includes host ''dropbox.com'' then
           (if sp_has U url ''dl'' then toString U (sp_set U url ''dl'' ''1'')
            else if \<not> sp_has U url ''raw''
              then toString U (sp_set U url ''raw'' ''1'')
            else toString U url)
         else if str_includes host ''drive.google.com'' then
           (let fid = (case path_id (pathname U url) of
                         Some m \<Rightarrow> m
                       | None \<Rightarrow>
                           (case sp_get U url ''id'' of
                              Some v \<Rightarrow> v
                            | None \<Rightarrow> []))
            in if fid \<noteq> [] then drive_direct fid else toString U url)
         else toString U url)"

definition plain :: "char \<Rightarrow> bool" where
  "plain c = (32 < code c \<and> code c < 127)"

definition escape_char :: "char \<Rightarrow> bool" where
  "escape_char c = (code c = 37 \<or> (48 \<le> code c \<and> code c \<le> 57) \<or> (65 \<le> code c \<and> code c \<le> 70))"

definition form_char :: "char \<Rightarrow> bool" where
  "form_char x = (form_safe x \<or> code x = 43 \<or> code x = 37)"

definition host_norm :: "char \<Rightarrow> bool" where
  "host_norm c = (host_ok c \<and> lower c = c)"

definition seg_ok :: "string \<Rightarrow> bool" where
  "seg_ok seg = ((\<forall>c \<in> set seg. \<not> path_set c \<and> \<not> is_sep c)
     \<and> \<not> is_single_dot seg \<and> \<not> is_double_dot seg)"

definition valid_url :: "url \<Rightarrow> bool" where
  "valid_url u =
     ((u_scheme u = ''http'' \<or> u_scheme u = ''https'')
      \<and> u_host u \<noteq> [] \<and> (\<forall>c \<in> set (u_host u). host_norm c)
      \<and> u_path u \<noteq> [] \<and> (\<forall>seg \<in> set (u_path u). seg_ok seg)
      \<and> (\<forall>q. u_query u = Some q \<longrightarrow> (\<forall>c \<in> set q. \<not> special_query_set c))
      \<and> (\<forall>f. u_fragment u = Some f \<longrightarrow> (\<forall>c \<in> set f. \<not> fragment_set c)))"

definition query_fragment :: "url \<Rightarrow> string" where
  "query_fragment u =
     (case u_query u of None \<Rightarrow> [] | Some q \<Rightarrow> CHR ''?'' # q)
       @ (case u_fragment u of None \<Rightarrow> [] | Some f \<Rightarrow> CHR ''#'' # f)"

text \<open>
  What the second pass makes of a Drive direct-download link on the reference class.
  \<open>ctail\<close> is what \<open>clean\<close> leaves of a text that ends the input, \<open>link_url\<close> the URL
  that the link parses to, \<open>serial\<close> the text after \<open>id=\<close> in the serialisation of that
  URL, and \<open>reread\<close> the text after \<open>id=\<close> in the result of the second pass: the value
  of the parameter \<open>id\<close> or, where that is empty, the serialisation.
\<close>

definition esc_head :: "string \<Rightarrow> bool" where
  "esc_head r =
     (case r of a # b # s \<Rightarrow> hex_val a \<noteq> None \<and> hex_val b \<noteq> None | _ \<Rightarrow> False)"

definition plus_space :: "char \<Rightarrow> char" where
  "plus_space c = (if c = CHR ''+'' then CHR '' '' else c)"

definition unreserved :: "(char \<Rightarrow> bool) \<Rightarrow> bool" where
  "unreserved P = (\<forall>c. P c \<longrightarrow> c \<noteq> CHR ''+'' \<and> c \<noteq> CHR ''%'' \<and> hex_val c = None)"

definition ctail :: "string \<Rightarrow> string" where
  "ctail g = filter (\<lambda>c. \<not> tab_or_newline c) (rev (dropWhile c0_or_space (rev g)))"

definition link_url :: "string \<Rightarrow> url" where
  "link_url t =
     \<lparr> u_scheme = ''https'', u_host = ''drive.google.com'', u_path = [''uc''],
       u_query = Some (''export=download&id=''
          @ pct_encode special_query_set (takeWhile (\<lambda>c. c \<noteq> CHR ''#'') t)),
       u_fragment = fragment_of (dropWhile (\<lambda>c. c \<noteq> CHR ''#'') t) \<rparr>"

definition serial :: "string \<Rightarrow> string" where
  "serial t =
     pct_encode special_query_set (takeWhile (\<lambda>c. c \<noteq> CHR ''#'') t)
     @ (case dropWhile (\<lambda>c. c \<noteq> CHR ''#'') t of
          [] \<Rightarrow> []
        | c # r \<Rightarrow> CHR ''#'' # pct_encode fragment_set r)"

definition reread :: "string \<Rightarrow> string" where
  "reread fid =
     (let t = ctail (strip_back ws_seqs fid);
          v = form_decode (takeWhile (\<lambda>c. c \<noteq> CHR ''&'' \<and> c \<noteq> CHR ''#'') t)
      in if v \<noteq> [] then v else serial t)"

definition seven_keys :: "Settings \<Rightarrow> bool" where
  \<comment> \<open>both maps of the settings have exactly the seven weekday labels as keys\<close>
  "seven_keys s = (dom (weeklyMusic s) = set weekdays \<and> dom (templates s) = set weekdays)"

section \<open>Concrete inputs\<close>

text \<open>The states, dates and draws at which the theorems below are instantiated.\<close>

definition draws0 :: draws where
  "draws0 i = \<lparr> clock = 1757289600000, token = ''4fzzzxjyl8'' \<rparr>"

definition draws1 :: draws where
  "draws1 i = \<lparr> clock = 1757289600000 + i, token = ''4fzzzxjyl8'' \<rparr>"

definition edited :: Entry where
  "edited = \<lparr> date = ''2025-09-09'', weight = ''63.5'', meals = blank_meals, checklist = [] \<rparr>"

definition st_edited :: AppState where
  "st_edited = \<lparr> entries = [''2025-09-09'' \<mapsto> edited], settings = defaultSettings \<rparr>"

definition draws2 :: draws where
  "draws2 i = \<lparr> clock = 1757289600001, token = ''k0c9w2m5f'' \<rparr>"

definition weight_only :: EntryPartial where
  "weight_only = no_fields\<lparr> p_weight := Some ''63.5'' \<rparr>"

definition st_music :: AppState where
  "st_music = initial_state\<lparr> settings := defaultSettings\<lparr> weeklyMusic :=
     (weeklyMusic defaultSettings)(label_Mon \<mapsto> ''https://example.com/monday.mp3'') \<rparr> \<rparr>"

definition literal_parse :: jsonParse where
  \<comment> \<open>a \<open>JSON.parse\<close> for the three literal names; it is applied below to \<open>null\<close> and
      to a text that is no JSON\<close>
  "literal_parse s =
     (if s = ''null'' then Some JNull
      else if s = ''true'' then Some (JBool True)
      else if s = ''false'' then Some (JBool False)
      else None)"


definition stored_null :: getItem where
  \<comment> \<open>a storage that holds the text \<open>null\<close> under the key of the application\<close>
  "stored_null k = Returns (if k = LS_KEY then Some ''null'' else None)"

definition blocked_storage :: getItem where
  \<comment> \<open>a storage that refuses every read, as a browser does that blocks site data\<close>
  "blocked_storage k = Throws"
section \<open>The reconciliation rule\<close>

lemma ensureEntry_present: "entries st d = Some e \<Longrightarrow> ensureEntry gd env st d = st"
  by (simp add: ensureEntry_def)

lemma ensureEntry_stored: "entries (ensureEntry gd env st d) d \<noteq> None"
  by (cases "entries st d") (simp_all add: ensureEntry_def)

lemma ensureEntry_absent:
  "entries st d = None \<Longrightarrow>
     ensureEntry gd env st d = st\<lparr> entries := (entries st)(d \<mapsto> buildEntry gd env d (settings st)) \<rparr>"
  by (simp add: ensureEntry_def)

text \<open>
  Claim C1. \<open>ensureEntry\<close> is idempotent and never overwrites an entry: where the state
  has an entry for the date, \<open>ensureEntry\<close> returns the state as it is; applying it
  twice gives what applying it once gives; and whatever entry \<open>e'\<close> an edit stores for
  the date after the first application is still there, with the rest of the state,
  after the second. The draws \<open>env1\<close> and \<open>env2\<close> of the two applications are
  arbitrary.
\<close>

theorem ensureEntry_idempotent:
  "(entries st d = Some e \<longrightarrow> ensureEntry gd env st d = st) \<and>
   ensureEntry gd env2 (ensureEntry gd env1 st d) d = ensureEntry gd env1 st d \<and>
   ensureEntry gd env2
     ((ensureEntry gd env1 st d)\<lparr> entries := (entries (ensureEntry gd env1 st d))(d \<mapsto> e') \<rparr>) d
   = (ensureEntry gd env1 st d)\<lparr> entries := (entries (ensureEntry gd env1 st d))(d \<mapsto> e') \<rparr>"
proof (intro conjI impI)
  assume "entries st d = Some e"
  then show "ensureEntry gd env st d = st" by (rule ensureEntry_present)
next
  obtain b where "entries (ensureEntry gd env1 st d) d = Some b"
    using ensureEntry_stored [of gd env1 st d] by auto
  then show "ensureEntry gd env2 (ensureEntry gd env1 st d) d = ensureEntry gd env1 st d"
    by (rule ensureEntry_present)
next
  let ?st2 = "(ensureEntry gd env1 st d)\<lparr> entries := (entries (ensureEntry gd env1 st d))(d \<mapsto> e') \<rparr>"
  have "entries ?st2 d = Some e'" by simp
  then show "ensureEntry gd env2 ?st2 d = ?st2" by (rule ensureEntry_present)
qed

text \<open>
  The eighth self-test of the source: an entry whose weight was set to \<open>63.5\<close> keeps it.
\<close>

theorem ensureEntry_idempotent_witness:
  "entries st_edited ''2025-09-09'' = Some edited \<and>
   ensureEntry utc_getDay draws0 st_edited ''2025-09-09'' = st_edited \<and>
   weight (the (entries (ensureEntry utc_getDay draws0 st_edited ''2025-09-09'') ''2025-09-09''))
     = ''63.5''"
proof -
  have h: "entries st_edited ''2025-09-09'' = Some edited"
    by (simp add: st_edited_def)
  have "ensureEntry utc_getDay draws0 st_edited ''2025-09-09'' = st_edited"
    using ensureEntry_idempotent [of st_edited "''2025-09-09''" edited utc_getDay draws0] h by blast
  with h show ?thesis by (simp add: edited_def)
qed

section \<open>The entry factory\<close>

lemma checklist_buildEntry:
  "checklist (buildEntry gd env d s) =
     map (\<lambda>(i, t). \<lparr> item_id = mk_item_id d i (env i), item_text = t, item_done = False \<rparr>)
       (enumerate 0 (case templates s (prop_key (weekdayStr gd d)) of Some t \<Rightarrow> t | None \<Rightarrow> []))"
  by (simp add: buildEntry_def Let_def)

lemma monday: "weekdayStr utc_getDay ''2025-09-08'' = Some label_Mon"
  by (simp add: weekdayStr_def utc_getDay_def is_digit_def digits_value_def days_in_month_def
      days_from_civil_def Let_def)

lemma monday_template:
  "templates defaultSettings (prop_key (weekdayStr utc_getDay ''2025-09-08'')) = Some template_Mon"
  by (simp add: monday prop_key_def defaultSettings_def label_Mon_def label_Tue_def label_Wed_def
      label_Thu_def label_Fri_def label_Sat_def label_Sun_def)

text \<open>
  Claim C2. For every date key \<open>d\<close> and settings \<open>s\<close>, the entry that \<open>buildEntry\<close>
  returns has one checklist item for each line of the template stored under the weekday
  label of \<open>d\<close> (no item when no template is stored under it), every item is not done,
  the date is \<open>d\<close>, and the weight and the four meal fields are blank.
\<close>

theorem buildEntry_shape:
  "length (checklist (buildEntry gd env d s))
     = length (case templates s (prop_key (weekdayStr gd d)) of Some t \<Rightarrow> t | None \<Rightarrow> []) \<and>
   (\<forall>c \<in> set (checklist (buildEntry gd env d s)). item_done c = False) \<and>
   date (buildEntry gd env d s) = d \<and>
   weight (buildEntry gd env d s) = [] \<and>
   meals (buildEntry gd env d s)
     = \<lparr> breakfast = [], lunch = [], dinner = [], notes' = [] \<rparr>"
  by (auto simp: buildEntry_def Let_def blank_meals_def)

text \<open>
  The fourth self-test of the source: 2025-09-08 is a Monday, and the default Monday
  template has three lines.
\<close>

theorem buildEntry_shape_witness:
  "length (checklist (buildEntry utc_getDay draws0 ''2025-09-08'' defaultSettings)) = 3 \<and>
   list_all (\<lambda>c. item_done c = False)
     (checklist (buildEntry utc_getDay draws0 ''2025-09-08'' defaultSettings))"
  using buildEntry_shape [of utc_getDay draws0 "''2025-09-08''" defaultSettings]
  by (simp add: monday_template template_Mon_def list_all_iff)

section \<open>Two builds for one date\<close>

lemma decimal_nonempty: "decimal n \<noteq> []"
  by (subst decimal.simps) simp

lemma decimal_small: "n < 10 \<Longrightarrow> decimal n = [char_of (48 + n)]"
  by (subst decimal.simps) simp

lemma decimal_large: "\<not> n < 10 \<Longrightarrow> decimal n = decimal (n div 10) @ [char_of (48 + n mod 10)]"
  by (subst decimal.simps) simp

lemma digit_char_inj:
  fixes a b :: nat
  assumes "a < 10" and "b < 10" and "(char_of (48 + a) :: char) = char_of (48 + b)"
  shows "a = b"
proof -
  have "(of_char (char_of (48 + a) :: char) :: nat) = of_char (char_of (48 + b) :: char)"
    using assms(3) by simp
  with assms(1,2) show ?thesis by simp
qed

lemma digit_char_no_dash: "(a::nat) < 10 \<Longrightarrow> (char_of (48 + a) :: char) \<noteq> CHR ''-''"
proof
  assume a: "a < 10" and "(char_of (48 + a) :: char) = CHR ''-''"
  then have "(of_char (char_of (48 + a) :: char) :: nat) = of_char (CHR ''-'')" by simp
  with a show False by simp
qed

lemma decimal_no_dash: "CHR ''-'' \<notin> set (decimal n)"
proof (induction n rule: decimal.induct)
  case (1 n)
  show ?case
  proof (cases "n < 10")
    case True
    then show ?thesis using digit_char_no_dash [of n] by (auto simp: decimal_small)
  next
    case False
    have "n mod 10 < 10" by simp
    then have "(char_of (48 + n mod 10) :: char) \<noteq> CHR ''-''" by (rule digit_char_no_dash)
    with 1 False show ?thesis by (auto simp: decimal_large)
  qed
qed

lemma decimal_inj: "decimal m = decimal n \<Longrightarrow> m = n"
proof (induction m arbitrary: n rule: decimal.induct)
  case (1 m)
  show ?case
  proof (cases "m < 10")
    case m: True
    show ?thesis
    proof (cases "n < 10")
      case True
      with m "1.prems" show ?thesis by (auto simp: decimal_small dest: digit_char_inj)
    next
      case False
      with m "1.prems" decimal_nonempty [of "n div 10"] show ?thesis
        by (simp add: decimal_small decimal_large)
    qed
  next
    case m: False
    show ?thesis
    proof (cases "n < 10")
      case True
      with m "1.prems" decimal_nonempty [of "m div 10"] show ?thesis
        by (simp add: decimal_small decimal_large)
    next
      case False
      with m "1.prems" have eq: "decimal (m div 10) = decimal (n div 10)"
        and last: "(char_of (48 + m mod 10) :: char) = char_of (48 + n mod 10)"
        by (simp_all add: decimal_large)
      from eq m have "m div 10 = n div 10" by (rule "1.IH" [rotated])
      moreover have "m mod 10 = n mod 10"
        using last by (intro digit_char_inj) simp_all
      ultimately show ?thesis by (metis div_mult_mod_eq)
    qed
  qed
qed

lemma dash_split:
  assumes "CHR ''-'' \<notin> set x" and "CHR ''-'' \<notin> set x'"
    and "x @ CHR ''-'' # y = x' @ CHR ''-'' # y'"
  shows "x = x' \<and> y = y'"
  using assms
proof (induction x arbitrary: x')
  case Nil
  then show ?case by (cases x') auto
next
  case (Cons a x)
  then show ?case by (cases x') auto
qed

lemma mk_item_id_inj:
  assumes "mk_item_id d i a = mk_item_id d j b"
  shows "i = j \<and> a = b"
proof -
  from assms have
    "decimal i @ CHR ''-'' # (decimal (clock a) @ CHR ''-'' # token a)
     = decimal j @ CHR ''-'' # (decimal (clock b) @ CHR ''-'' # token b)"
    by (simp add: mk_item_id_def)
  then have ij: "decimal i = decimal j"
    and rest: "decimal (clock a) @ CHR ''-'' # token a = decimal (clock b) @ CHR ''-'' # token b"
    using dash_split [OF decimal_no_dash decimal_no_dash] by blast+
  from rest have "decimal (clock a) = decimal (clock b)" and "token a = token b"
    using dash_split [OF decimal_no_dash decimal_no_dash] by blast+
  with ij show ?thesis by (auto dest: decimal_inj)
qed

lemma texts_buildEntry:
  "map item_text (checklist (buildEntry gd env d s))
     = (case templates s (prop_key (weekdayStr gd d)) of Some t \<Rightarrow> t | None \<Rightarrow> [])"
  by (simp add: checklist_buildEntry enumerate_eq_zip map_snd_zip comp_def case_prod_unfold)

lemma map_fst_zip_fun:
  "length xs = length ys \<Longrightarrow> map (\<lambda>x. f (fst x)) (zip xs ys) = map f xs"
  by (induction xs ys rule: list_induct2) simp_all

lemma ids_buildEntry:
  "map item_id (checklist (buildEntry gd env d s))
     = map (\<lambda>i. mk_item_id d i (env i)) [0..<length (checklist (buildEntry gd env d s))]"
proof -
  let ?t = "case templates s (prop_key (weekdayStr gd d)) of Some t \<Rightarrow> t | None \<Rightarrow> []"
  have "map (\<lambda>x. (\<lambda>i. mk_item_id d i (env i)) (fst x)) (zip [0..<length ?t] ?t)
      = map (\<lambda>i. mk_item_id d i (env i)) [0..<length ?t]"
    by (rule map_fst_zip_fun) simp
  then show ?thesis
    by (simp add: checklist_buildEntry enumerate_eq_zip comp_def case_prod_unfold)
qed

lemma length_buildEntry_env:
  "length (checklist (buildEntry gd e1 d s)) = length (checklist (buildEntry gd e2 d s))"
  by (simp add: checklist_buildEntry)

lemma id_in_checklist:
  assumes "i < length (checklist (buildEntry gd env d s))"
  shows "mk_item_id d i (env i) \<in> set (map item_id (checklist (buildEntry gd env d s)))"
proof -
  have "i \<in> set [0..<length (checklist (buildEntry gd env d s))]"
    using assms by simp
  then have "mk_item_id d i (env i)
      \<in> (\<lambda>i. mk_item_id d i (env i)) ` set [0..<length (checklist (buildEntry gd env d s))]"
    by (rule imageI)
  then show ?thesis
    by (subst ids_buildEntry) (simp only: set_map)
qed

lemma monday_length:
  "length (checklist (buildEntry utc_getDay e ''2025-09-08'' defaultSettings)) = 3"
  by (simp add: checklist_buildEntry monday_template template_Mon_def)

text \<open>
  Claim C3, as the source has it. Two calls of \<open>buildEntry\<close> for one date and the same
  settings, the first drawing \<open>e1\<close> and the second \<open>e2\<close> from the clock and the random
  generator, give checklists with the same texts in the same order. The identifiers of
  the two checklists are disjoint exactly when, at every index, the pair of clock
  reading and random token drawn by the first call differs from the pair drawn by the
  second: an identifier is the date, the index and the pair, and nothing else.
\<close>

theorem buildEntry_twice:
  "map item_text (checklist (buildEntry gd e1 d s))
     = map item_text (checklist (buildEntry gd e2 d s)) \<and>
   (set (map item_id (checklist (buildEntry gd e1 d s)))
      \<inter> set (map item_id (checklist (buildEntry gd e2 d s))) = {})
     = (\<forall>i < length (checklist (buildEntry gd e1 d s)). e1 i \<noteq> e2 i)"
proof
  show "map item_text (checklist (buildEntry gd e1 d s))
     = map item_text (checklist (buildEntry gd e2 d s))"
    by (simp add: texts_buildEntry)
next
  let ?n = "length (checklist (buildEntry gd e1 d s))"
  have n2: "length (checklist (buildEntry gd e2 d s)) = ?n"
    by (rule length_buildEntry_env)
  have ids1: "set (map item_id (checklist (buildEntry gd e1 d s)))
      = (\<lambda>i. mk_item_id d i (e1 i)) ` {0..<?n}"
    by (subst ids_buildEntry) simp
  have ids2: "set (map item_id (checklist (buildEntry gd e2 d s)))
      = (\<lambda>i. mk_item_id d i (e2 i)) ` {0..<?n}"
    by (subst ids_buildEntry) (simp add: n2)
  show "(set (map item_id (checklist (buildEntry gd e1 d s)))
      \<inter> set (map item_id (checklist (buildEntry gd e2 d s))) = {})
     = (\<forall>i < ?n. e1 i \<noteq> e2 i)"
  proof
    assume disj: "set (map item_id (checklist (buildEntry gd e1 d s)))
      \<inter> set (map item_id (checklist (buildEntry gd e2 d s))) = {}"
    show "\<forall>i < ?n. e1 i \<noteq> e2 i"
    proof (intro allI impI notI)
      fix i assume "i < ?n" and "e1 i = e2 i"
      then have "mk_item_id d i (e1 i) \<in> (\<lambda>i. mk_item_id d i (e1 i)) ` {0..<?n}"
        and "mk_item_id d i (e1 i) \<in> (\<lambda>i. mk_item_id d i (e2 i)) ` {0..<?n}"
        by (auto intro: image_eqI [where x = i])
      with disj ids1 ids2 show False by blast
    qed
  next
    assume diff: "\<forall>i < ?n. e1 i \<noteq> e2 i"
    show "set (map item_id (checklist (buildEntry gd e1 d s)))
      \<inter> set (map item_id (checklist (buildEntry gd e2 d s))) = {}"
    proof (rule ccontr)
      assume "set (map item_id (checklist (buildEntry gd e1 d s)))
        \<inter> set (map item_id (checklist (buildEntry gd e2 d s))) \<noteq> {}"
      then obtain i j where "i < ?n" and "j < ?n"
        and "mk_item_id d i (e1 i) = mk_item_id d j (e2 j)"
        unfolding ids1 ids2 by auto
      then have "i = j" and "e1 i = e2 j" using mk_item_id_inj by blast+
      with diff \<open>i < ?n\<close> show False by auto
    qed
  qed
qed

text \<open>
  Where the two calls read the same millisecond and draw the same token for the first
  item, the first items carry the same identifier.
\<close>

theorem buildEntry_twice_counterexample:
  "set (map item_id (checklist (buildEntry utc_getDay draws0 ''2025-09-08'' defaultSettings)))
     \<inter> set (map item_id (checklist (buildEntry utc_getDay draws1 ''2025-09-08'' defaultSettings)))
   \<noteq> {}"
proof -
  let ?x = "mk_item_id ''2025-09-08'' 0 (draws0 0)"
  have a: "?x \<in> set (map item_id (checklist (buildEntry utc_getDay draws0 ''2025-09-08'' defaultSettings)))"
    by (rule id_in_checklist) (simp add: monday_length)
  have "draws1 0 = draws0 0" by (simp add: draws0_def draws1_def)
  moreover have "mk_item_id ''2025-09-08'' 0 (draws1 0)
      \<in> set (map item_id (checklist (buildEntry utc_getDay draws1 ''2025-09-08'' defaultSettings)))"
    by (rule id_in_checklist) (simp add: monday_length)
  ultimately have b: "?x \<in> set (map item_id (checklist (buildEntry utc_getDay draws1 ''2025-09-08'' defaultSettings)))"
    by (simp only:)
  from a b show ?thesis by (rule_tac notI) (drule equals0D [where a = ?x], simp only: Int_iff simp_thms)
qed

theorem buildEntry_twice_witness:
  "map item_text (checklist (buildEntry utc_getDay draws0 ''2025-09-08'' defaultSettings))
     = map item_text (checklist (buildEntry utc_getDay draws2 ''2025-09-08'' defaultSettings)) \<and>
   set (map item_id (checklist (buildEntry utc_getDay draws0 ''2025-09-08'' defaultSettings)))
     \<inter> set (map item_id (checklist (buildEntry utc_getDay draws2 ''2025-09-08'' defaultSettings)))
   = {}"
proof -
  note th = buildEntry_twice [of utc_getDay draws0 "''2025-09-08''" defaultSettings draws2]
  have "draws0 i \<noteq> draws2 i" for i
    by (simp add: draws0_def draws2_def)
  then have h: "\<forall>i < length (checklist (buildEntry utc_getDay draws0 ''2025-09-08'' defaultSettings)).
          draws0 i \<noteq> draws2 i"
    by (simp only: simp_thms)
  have "set (map item_id (checklist (buildEntry utc_getDay draws0 ''2025-09-08'' defaultSettings)))
     \<inter> set (map item_id (checklist (buildEntry utc_getDay draws2 ''2025-09-08'' defaultSettings)))
   = {}"
    using th [THEN conjunct2] h by (rule iffD2)
  with th [THEN conjunct1] show ?thesis by (rule conjI)
qed

section \<open>Mutations on a date without an entry\<close>

lemma updateEntry_absent:
  assumes "entries st d = None"
  shows "updateEntry gd env d p st
    = st\<lparr> entries := (entries st)(d \<mapsto> spread (buildEntry gd env d (settings st)) p) \<rparr>"
  using assms by (simp add: updateEntry_def ensureEntry_def)

text \<open>
  Claim C4, as the source has it. On a state with no entry for the date \<open>d\<close>:
  \<open>updateEntry\<close>, \<open>updateMeals\<close> and \<open>removeChecklistItem\<close>, and \<open>addChecklistItem\<close>
  when the trimmed answer of the prompt is not empty, store for \<open>d\<close> the entry built
  from the current settings with their one change applied to it, and leave the rest of
  the state as it is. \<open>toggleChecklist\<close>, which returns at once when the date has no
  entry, and \<open>addChecklistItem\<close> with a blank answer return the state unchanged and
  create no entry.
\<close>

theorem mutations_ensure_entry:
  assumes "entries st d = None"
  shows "updateEntry gd env d p st
           = st\<lparr> entries := (entries st)(d \<mapsto> spread (buildEntry gd env d (settings st)) p) \<rparr> \<and>
         updateMeals gd env d k v st
           = st\<lparr> entries := (entries st)(d \<mapsto>
               (buildEntry gd env d (settings st))\<lparr> meals := set_meal k v blank_meals \<rparr>) \<rparr> \<and>
         removeChecklistItem gd env d i st
           = st\<lparr> entries := (entries st)(d \<mapsto>
               (buildEntry gd env d (settings st))
                 \<lparr> checklist := filter (\<lambda>c. item_id c \<noteq> i)
                     (checklist (buildEntry gd env d (settings st))) \<rparr>) \<rparr> \<and>
         (trim (case answer of Some r \<Rightarrow> r | None \<Rightarrow> []) \<noteq> [] \<longrightarrow>
            addChecklistItem gd env d answer uid st
              = st\<lparr> entries := (entries st)(d \<mapsto>
                  (buildEntry gd env d (settings st))
                    \<lparr> checklist := checklist (buildEntry gd env d (settings st)) @
                        [\<lparr> item_id = d @ ''-'' @ uid,
                           item_text = trim (case answer of Some r \<Rightarrow> r | None \<Rightarrow> []),
                           item_done = False \<rparr>] \<rparr>) \<rparr>) \<and>
         (trim (case answer of Some r \<Rightarrow> r | None \<Rightarrow> []) = [] \<longrightarrow>
            addChecklistItem gd env d answer uid st = st) \<and>
         toggleChecklist gd env d i st = st"
proof (intro conjI impI)
  show "updateEntry gd env d p st
      = st\<lparr> entries := (entries st)(d \<mapsto> spread (buildEntry gd env d (settings st)) p) \<rparr>"
    using assms by (rule updateEntry_absent)
next
  show "updateMeals gd env d k v st
      = st\<lparr> entries := (entries st)(d \<mapsto>
          (buildEntry gd env d (settings st))\<lparr> meals := set_meal k v blank_meals \<rparr>) \<rparr>"
    using assms
    by (simp add: updateMeals_def updateEntry_absent spread_def no_fields_def buildEntry_def Let_def)
next
  show "removeChecklistItem gd env d i st
      = st\<lparr> entries := (entries st)(d \<mapsto>
          (buildEntry gd env d (settings st))
            \<lparr> checklist := filter (\<lambda>c. item_id c \<noteq> i)
                (checklist (buildEntry gd env d (settings st))) \<rparr>) \<rparr>"
    using assms by (simp add: removeChecklistItem_def ensureEntry_def)
next
  assume "trim (case answer of Some r \<Rightarrow> r | None \<Rightarrow> []) \<noteq> []"
  then show "addChecklistItem gd env d answer uid st
      = st\<lparr> entries := (entries st)(d \<mapsto>
          (buildEntry gd env d (settings st))
            \<lparr> checklist := checklist (buildEntry gd env d (settings st)) @
                [\<lparr> item_id = d @ ''-'' @ uid,
                   item_text = trim (case answer of Some r \<Rightarrow> r | None \<Rightarrow> []),
                   item_done = False \<rparr>] \<rparr>) \<rparr>"
    using assms by (simp add: addChecklistItem_def ensureEntry_def Let_def)
next
  assume "trim (case answer of Some r \<Rightarrow> r | None \<Rightarrow> []) = []"
  then show "addChecklistItem gd env d answer uid st = st"
    by (simp add: addChecklistItem_def)
next
  show "toggleChecklist gd env d i st = st"
    using assms by (simp add: toggleChecklist_def)
qed

text \<open>
  Toggling an item of a date that has no entry leaves the date without an entry.
\<close>

theorem mutations_ensure_entry_counterexample:
  "entries (toggleChecklist utc_getDay draws0 ''2025-09-08''
             ''2025-09-08-0-1757289600000-4fzzzxjyl8'' initial_state) ''2025-09-08'' = None"
  by (simp add: toggleChecklist_def initial_state_def)

lemma spread_weight_only: "spread e weight_only = e\<lparr> weight := ''63.5'' \<rparr>"
  by (simp add: spread_def weight_only_def no_fields_def)

theorem mutations_ensure_entry_witness:
  "entries initial_state ''2025-09-08'' = None \<and>
   entries (updateEntry utc_getDay draws0 ''2025-09-08'' weight_only initial_state) ''2025-09-08''
     = Some ((buildEntry utc_getDay draws0 ''2025-09-08'' defaultSettings)\<lparr> weight := ''63.5'' \<rparr>) \<and>
   toggleChecklist utc_getDay draws0 ''2025-09-08'' ''x'' initial_state = initial_state"
proof -
  have h: "entries initial_state ''2025-09-08'' = None"
    by (simp add: initial_state_def)
  have s: "settings initial_state = defaultSettings"
    by (simp add: initial_state_def)
  note th = mutations_ensure_entry [OF h, where gd = utc_getDay and env = draws0
      and p = weight_only and i = "''x''"]
  have "entries (updateEntry utc_getDay draws0 ''2025-09-08'' weight_only initial_state) ''2025-09-08''
     = Some ((buildEntry utc_getDay draws0 ''2025-09-08'' defaultSettings)\<lparr> weight := ''63.5'' \<rparr>)"
    by (subst th [THEN conjunct1]) (simp add: s spread_weight_only)
  moreover have "toggleChecklist utc_getDay draws0 ''2025-09-08'' ''x'' initial_state = initial_state"
    by (rule th [THEN conjunct2, THEN conjunct2, THEN conjunct2, THEN conjunct2, THEN conjunct2])
  ultimately show ?thesis using h by (intro conjI)
qed

section \<open>The request to cache a media URL\<close>

lemma precache_posts:
  assumes "weeklyMusic (settings data) (prop_key (weekdayStr gd dateStr)) = Some url"
    and "url \<noteq> []"
  shows "precacheTodayMusic gd dateStr data True True
    = (Some \<lparr> msg_type = ''CACHE_URL'', msg_url = Some url, msg_urls = None \<rparr>, RequestSent)"
  using assms by (simp add: precacheTodayMusic_def Let_def)

lemma posted_type:
  "fst (precacheTodayMusic gd dateStr data has_sw active) = Some m \<Longrightarrow> msg_type m = ''CACHE_URL''"
  by (auto simp: precacheTodayMusic_def Let_def split: option.splits if_splits)

lemma posted_ignored:
  "fst (precacheTodayMusic gd dateStr data has_sw active) = Some m \<Longrightarrow> sw_on_message m = []"
  by (drule posted_type) (simp add: sw_on_message_def)

text \<open>
  Claim C5. The message that \<open>precacheTodayMusic\<close> posts has the type \<open>CACHE_URL\<close> and
  carries the URL in the field \<open>url\<close>; the worker's listener acts only on the type
  \<open>CACHE_URLS\<close> and reads the field \<open>urls\<close>. For the date 2025-09-08 and the URL
  \<open>https://example.com/monday.mp3\<close> set for Monday, the message is posted and the
  listener hands no URL to the cache.
\<close>

theorem precache_message_ignored:
  "precacheTodayMusic utc_getDay ''2025-09-08'' st_music True True
     = (Some \<lparr> msg_type = ''CACHE_URL'', msg_url = Some ''https://example.com/monday.mp3'',
              msg_urls = None \<rparr>, RequestSent) \<and>
   sw_on_message \<lparr> msg_type = ''CACHE_URL'', msg_url = Some ''https://example.com/monday.mp3'',
                   msg_urls = None \<rparr> = []"
proof
  have "weeklyMusic (settings st_music) (prop_key (weekdayStr utc_getDay ''2025-09-08''))
      = Some ''https://example.com/monday.mp3''"
    by (simp add: st_music_def monday prop_key_def)
  then show "precacheTodayMusic utc_getDay ''2025-09-08'' st_music True True
     = (Some \<lparr> msg_type = ''CACHE_URL'', msg_url = Some ''https://example.com/monday.mp3'',
              msg_urls = None \<rparr>, RequestSent)"
    by (rule precache_posts) simp
next
  show "sw_on_message \<lparr> msg_type = ''CACHE_URL'', msg_url = Some ''https://example.com/monday.mp3'',
                   msg_urls = None \<rparr> = []"
    by (simp add: sw_on_message_def)
qed

section \<open>The seven weekday keys\<close>

lemmas label_defs = label_Mon_def label_Tue_def label_Wed_def label_Thu_def label_Fri_def
  label_Sat_def label_Sun_def

lemma weekdays_distinct: "distinct weekdays"
  by (simp add: weekdays_def label_defs)

lemma defaults_seven: "seven_keys defaultSettings"
  by (auto simp: seven_keys_def defaultSettings_def weekdays_def)

lemma setWeeklyMusic_seven:
  assumes "w \<in> set weekdays" and "seven_keys (settings st)"
  shows "seven_keys (settings (setWeeklyMusic U w url st))"
  using assms by (auto simp: seven_keys_def setWeeklyMusic_def Let_def)

lemma updateList_seven:
  assumes "w \<in> set weekdays" and "seven_keys (settings st)"
  shows "seven_keys (settings (updateList w nxt st))"
  using assms by (auto simp: seven_keys_def updateList_def)

text \<open>
  Claim C8. The default settings have exactly the seven weekday labels as the keys of
  \<open>weeklyMusic\<close> and of \<open>templates\<close>, and the seven labels are distinct. Setting the
  music URL of a weekday (\<open>setWeeklyMusic\<close>) and replacing the template of a weekday
  (\<open>updateList\<close>), for any of the seven labels, which are the keys the settings tab and
  the template editor pass, keep exactly these keys in both maps; so does setting the
  goal weight.
\<close>

theorem seven_weekday_keys:
  "seven_keys defaultSettings \<and> distinct weekdays \<and> length weekdays = 7 \<and>
   (w \<in> set weekdays \<longrightarrow> seven_keys (settings st) \<longrightarrow>
      seven_keys (settings (setWeeklyMusic U w url st)) \<and>
      seven_keys (settings (updateList w nxt st)) \<and>
      seven_keys (settings (setGoalWeight g st)))"
proof (intro conjI impI)
  show "seven_keys defaultSettings" by (rule defaults_seven)
  show "distinct weekdays" by (rule weekdays_distinct)
  show "length weekdays = 7" by (simp add: weekdays_def)
next
  assume "w \<in> set weekdays" and "seven_keys (settings st)"
  then show "seven_keys (settings (setWeeklyMusic U w url st))"
    by (rule setWeeklyMusic_seven)
next
  assume "w \<in> set weekdays" and "seven_keys (settings st)"
  then show "seven_keys (settings (updateList w nxt st))"
    by (rule updateList_seven)
next
  assume "seven_keys (settings st)"
  then show "seven_keys (settings (setGoalWeight g st))"
    by (simp add: seven_keys_def setGoalWeight_def)
qed

theorem seven_weekday_keys_witness:
  "label_Mon \<in> set weekdays \<and> seven_keys (settings initial_state) \<and>
   seven_keys (settings (setWeeklyMusic url_ref label_Mon
      ''https://www.dropbox.com/s/abc/mon.mp3?dl=0'' initial_state)) \<and>
   seven_keys (settings (updateList label_Mon [''Squat 15 x 2''] initial_state)) \<and>
   seven_keys (settings (setGoalWeight 58 initial_state))"
proof -
  have w: "label_Mon \<in> set weekdays" by (simp add: weekdays_def)
  have s: "seven_keys (settings initial_state)"
    by (simp add: initial_state_def defaults_seven)
  note th = seven_weekday_keys [where w = label_Mon and st = initial_state and U = url_ref
      and url = "''https://www.dropbox.com/s/abc/mon.mp3?dl=0''" and nxt = "[''Squat 15 x 2'']"
      and g = 58,
      THEN conjunct2, THEN conjunct2, THEN conjunct2, rule_format, OF w s]
  from w s th show ?thesis by (intro conjI) simp_all
qed

section \<open>Importing and loading\<close>

text \<open>
  Claim C9. Where the contents of the file do not parse, \<open>importJSON\<close> shows the alert
  and leaves the state cell as it was; where they parse to \<open>v\<close>, the cell holds \<open>v\<close>
  and no alert is shown.
\<close>

theorem import_atomic:
  "(jp contents = None \<longrightarrow> importJSON jp contents data = (data, Some import_failed_msg)) \<and>
   (jp contents = Some v \<longrightarrow> importJSON jp contents data = (Parsed v, None))"
  by (simp add: importJSON_def)

theorem import_atomic_witness:
  "literal_parse ''{ entries: '' = None \<and>
   importJSON literal_parse ''{ entries: '' (Typed st_edited)
     = (Typed st_edited, Some import_failed_msg) \<and>
   literal_parse ''null'' = Some JNull \<and>
   importJSON literal_parse ''null'' (Typed st_edited) = (Parsed JNull, None)"
proof -
  have a: "literal_parse ''{ entries: '' = None" by (simp add: literal_parse_def)
  have b: "literal_parse ''null'' = Some JNull" by (simp add: literal_parse_def)
  from a b
    import_atomic [where jp = literal_parse and contents = "''{ entries: ''"
      and data = "Typed st_edited", THEN conjunct1]
    import_atomic [where jp = literal_parse and contents = "''null''" and v = JNull
      and data = "Typed st_edited", THEN conjunct2]
  show ?thesis by simp
qed

text \<open>
  Claim C10, as the source has it. \<open>loadData\<close> returns whatever a non-empty stored
  string parses to, with no check of its shape: a stored \<open>null\<close> gives the value \<open>null\<close>.
  It returns the default state exactly in four cases: reading the storage throws, nothing
  is stored under the key, the stored string is empty, or parsing the stored string
  throws. The first case is the one the claim leaves out.
\<close>

theorem load_verbatim:
  "(getItem LS_KEY = Returns (Some raw) \<longrightarrow> raw \<noteq> [] \<longrightarrow> jp raw = Some v \<longrightarrow>
      loadData jp getItem = Parsed v) \<and>
   (getItem LS_KEY = Returns (Some ''null'') \<longrightarrow> jp ''null'' = Some JNull \<longrightarrow>
      loadData jp getItem = Parsed JNull) \<and>
   (loadData jp getItem = Typed initial_state) =
     (getItem LS_KEY = Throws \<or> getItem LS_KEY = Returns None \<or>
      getItem LS_KEY = Returns (Some []) \<or>
      (\<exists>raw. getItem LS_KEY = Returns (Some raw) \<and> jp raw = None))"
  by (auto simp: loadData_def split: storage_read.splits option.splits)

text \<open>
  A storage that cannot be read: \<open>getItem\<close> throws, so no key is found absent, no string
  is read and \<open>JSON.parse\<close> is not called, and yet the default state is returned.
\<close>

theorem load_verbatim_counterexample:
  "blocked_storage LS_KEY = Throws \<and>
   blocked_storage LS_KEY \<noteq> Returns None \<and>
   blocked_storage LS_KEY \<noteq> Returns (Some []) \<and>
   loadData literal_parse blocked_storage = Typed initial_state"
  by (simp add: blocked_storage_def loadData_def)

theorem load_verbatim_witness:
  "stored_null LS_KEY = Returns (Some ''null'') \<and> literal_parse ''null'' = Some JNull \<and>
   loadData literal_parse stored_null = Parsed JNull \<and>
   loadData literal_parse stored_null \<noteq> Typed initial_state"
proof -
  have a: "stored_null LS_KEY = Returns (Some ''null'')" by (simp add: stored_null_def)
  have b: "literal_parse ''null'' = Some JNull" by (simp add: literal_parse_def)
  from load_verbatim [where getItem = stored_null and raw = "''null''"
      and jp = literal_parse and v = JNull] a b
  have "loadData literal_parse stored_null = Parsed JNull" by blast
  with a b show ?thesis by simp
qed

section \<open>The media URL normaliser: lemmas\<close>

subsection \<open>Characters and percent-encoding\<close>

lemma code_less: "code c < 256"
  by (simp add: code_def)

lemma code_char_of: "n < 256 \<Longrightarrow> code (char_of n) = n"
  by (simp add: code_def)

lemma char_eq_code: "(c = d) = (code c = code d)"
  by (auto simp: code_def)

lemma char_of_code: "char_of (code c) = c"
  by (simp add: code_def)

lemma code_hex_digit: "n < 16 \<Longrightarrow> code (hex_digit n) = (if n < 10 then 48 + n else 55 + n)"
  by (simp add: hex_digit_def code_char_of)

lemma hex_val_hex_digit: "n < 16 \<Longrightarrow> hex_val (hex_digit n) = Some n"
  by (simp add: hex_val_def code_hex_digit)

lemma code_lower:
  "code (lower c) = (if 65 \<le> code c \<and> code c \<le> 90 then code c + 32 else code c)"
  by (simp add: lower_def code_def)

lemma c0_or_high_code: "c0_or_high c = (code c \<le> 31 \<or> 126 < code c)"
  by (simp add: c0_or_high_def)

lemma fragment_set_code:
  "fragment_set c = (code c \<le> 31 \<or> 126 < code c \<or> code c \<in> {32, 34, 60, 62, 96})"
  by (auto simp: fragment_set_def c0_or_high_code char_eq_code [of c] code_def)

lemma query_set_code:
  "query_set c = (code c \<le> 31 \<or> 126 < code c \<or> code c \<in> {32, 34, 35, 60, 62})"
  by (auto simp: query_set_def c0_or_high_code char_eq_code [of c] code_def)

lemma special_query_set_code:
  "special_query_set c = (code c \<le> 31 \<or> 126 < code c \<or> code c \<in> {32, 34, 35, 39, 60, 62})"
  by (auto simp: special_query_set_def query_set_code char_eq_code [of c] code_def)

lemma path_set_code:
  "path_set c = (code c \<le> 31 \<or> 126 < code c
     \<or> code c \<in> {32, 34, 35, 60, 62, 63, 94, 96, 123, 125})"
  by (auto simp: path_set_def query_set_code char_eq_code [of c] code_def)

lemma host_ok_code:
  "host_ok c = (32 < code c \<and> code c < 127
     \<and> code c \<notin> {35, 47, 58, 60, 62, 63, 64, 91, 92, 93, 94, 124, 37})"
  by (auto simp: host_ok_def char_eq_code [of c] code_def)

lemma form_safe_code:
  "form_safe c = ((48 \<le> code c \<and> code c \<le> 57) \<or> (65 \<le> code c \<and> code c \<le> 90)
      \<or> (97 \<le> code c \<and> code c \<le> 122) \<or> code c \<in> {42, 45, 46, 95})"
  by (auto simp: form_safe_def char_eq_code [of c] code_def)

lemma is_sep_code: "is_sep c = (code c = 47 \<or> code c = 92)"
  by (auto simp: is_sep_def char_eq_code [of c] code_def)

lemma tab_or_newline_code: "tab_or_newline c = (code c = 9 \<or> code c = 10 \<or> code c = 13)"
  by (auto simp: tab_or_newline_def char_eq_code [of c] code_def)

lemma pct_decode_pct: "pct_decode (pct c @ s) = c # pct_decode s"
proof -
  have d: "code c div 16 < 16" and m: "code c mod 16 < 16"
    using code_less [of c] by simp_all
  have "16 * (code c div 16) + code c mod 16 = code c" by simp
  then show ?thesis
    by (simp add: pct_def hex_val_hex_digit [OF d] hex_val_hex_digit [OF m] char_of_code)
qed

lemma pct_decode_plain: "c \<noteq> CHR ''%'' \<Longrightarrow> pct_decode (c # s) = c # pct_decode s"
proof (cases s)
  case Nil
  then show ?thesis by simp
next
  case (Cons a t)
  assume c: "c \<noteq> CHR ''%''"
  show ?thesis
  proof (cases t)
    case Nil
    with Cons show ?thesis by simp
  next
    case (Cons b r)
    with \<open>s = a # t\<close> c show ?thesis by simp
  qed
qed

lemma pct_encode_Nil: "pct_encode P [] = []"
  by (simp add: pct_encode_def)

lemma pct_encode_Cons:
  "pct_encode P (c # s) = (if P c then pct c else [c]) @ pct_encode P s"
  by (simp add: pct_encode_def)

lemma pct_encode_append: "pct_encode P (s @ t) = pct_encode P s @ pct_encode P t"
  by (simp add: pct_encode_def)

lemma pct_decode_encode: "CHR ''%'' \<notin> set s \<Longrightarrow> pct_decode (pct_encode P s) = s"
proof (induction s)
  case Nil
  show ?case by (simp add: pct_encode_Nil)
next
  case (Cons c s)
  then have "c \<noteq> CHR ''%''" and "pct_decode (pct_encode P s) = s" by auto
  then show ?case
    by (simp add: pct_encode_Cons pct_decode_pct pct_decode_plain)
qed

lemma pct_encode_id: "\<forall>c \<in> set s. \<not> P c \<Longrightarrow> pct_encode P s = s"
  by (induction s) (simp_all add: pct_encode_Nil pct_encode_Cons)

lemma escape_hex_digit: "n < 16 \<Longrightarrow> escape_char (hex_digit n)"
  by (auto simp: escape_char_def code_hex_digit)

lemma pct_chars: "x \<in> set (pct c) \<Longrightarrow> escape_char x"
proof -
  have d: "code c div 16 < 16" and m: "code c mod 16 < 16"
    using code_less [of c] by simp_all
  assume "x \<in> set (pct c)"
  then have "x = CHR ''%'' \<or> x = hex_digit (code c div 16) \<or> x = hex_digit (code c mod 16)"
    by (auto simp: pct_def)
  with escape_hex_digit [OF d] escape_hex_digit [OF m] show ?thesis
    by (auto simp: escape_char_def code_def)
qed

lemma pct_encode_chars:
  "x \<in> set (pct_encode P s) \<Longrightarrow> (x \<in> set s \<and> \<not> P x) \<or> escape_char x"
  by (induction s) (auto simp: pct_encode_Nil pct_encode_Cons dest: pct_chars split: if_splits)

lemma form_encode_Nil: "form_encode [] = []"
  by (simp add: form_encode_def)

lemma form_encode_Cons:
  "form_encode (c # s)
    = (if c = CHR '' '' then ''+'' else if form_safe c then [c] else pct c) @ form_encode s"
  by (simp add: form_encode_def)

lemma form_decode_plus: "form_decode (CHR ''+'' # s) = CHR '' '' # form_decode s"
  by (simp add: form_decode_def pct_decode_plain)

lemma form_decode_safe: "form_safe c \<Longrightarrow> form_decode (c # s) = c # form_decode s"
proof -
  assume "form_safe c"
  then have "c \<noteq> CHR ''+''" and "c \<noteq> CHR ''%''"
    by (auto simp: form_safe_code char_eq_code [of c] code_def)
  then show ?thesis by (simp add: form_decode_def pct_decode_plain)
qed

lemma escape_not_plus: "escape_char x \<Longrightarrow> x \<noteq> CHR ''+''"
  by (auto simp: escape_char_def char_eq_code [of x] code_def)

lemma form_decode_pct: "form_decode (pct c @ s) = c # form_decode s"
proof -
  have "map (\<lambda>c. if c = CHR ''+'' then CHR '' '' else c) (pct c) = pct c"
    by (rule map_idI) (auto dest!: pct_chars escape_not_plus)
  then show ?thesis by (simp add: form_decode_def pct_decode_pct)
qed

lemma form_decode_encode: "form_decode (form_encode s) = s"
proof (induction s)
  case Nil
  show ?case by (simp add: form_encode_Nil form_decode_def)
next
  case (Cons c s)
  then show ?case
    by (simp add: form_encode_Cons form_decode_plus form_decode_safe form_decode_pct)
qed

lemma escape_form_char: "escape_char x \<Longrightarrow> form_char x"
  by (auto simp: escape_char_def form_char_def form_safe_code)

lemma form_encode_chars: "x \<in> set (form_encode s) \<Longrightarrow> form_char x"
proof (induction s)
  case Nil
  then show ?case by (simp add: form_encode_Nil)
next
  case (Cons c s)
  from Cons.prems have "x \<in> set (if c = CHR '' '' then ''+'' else if form_safe c then [c] else pct c)
      \<or> x \<in> set (form_encode s)"
    by (simp add: form_encode_Cons)
  then show ?case
  proof
    assume x: "x \<in> set (if c = CHR '' '' then ''+'' else if form_safe c then [c] else pct c)"
    show ?thesis
    proof (cases "c = CHR '' ''")
      case True
      with x show ?thesis by (simp add: form_char_def code_def)
    next
      case False
      show ?thesis
      proof (cases "form_safe c")
        case True
        with False x show ?thesis by (simp add: form_char_def)
      next
        case safe: False
        with False x have "x \<in> set (pct c)" by simp
        then show ?thesis by (intro escape_form_char pct_chars)
      qed
    qed
  next
    assume "x \<in> set (form_encode s)"
    then show ?thesis by (rule Cons.IH)
  qed
qed

subsection \<open>Splitting and the query string\<close>

lemma splitf_nonempty: "splitf P s \<noteq> []"
  by (induction s) (auto split: list.splits)

lemma splitf_plain: "\<forall>c \<in> set x. \<not> P c \<Longrightarrow> splitf P x = [x]"
  by (induction x) auto

lemma splitf_append_sep:
  "\<forall>c \<in> set x. \<not> P c \<Longrightarrow> P d \<Longrightarrow> splitf P (x @ d # r) = x # splitf P r"
  by (induction x) auto

lemma splitf_no_sep: "seg \<in> set (splitf P s) \<Longrightarrow> c \<in> set seg \<Longrightarrow> \<not> P c"
proof (induction s arbitrary: seg)
  case Nil
  then show ?case by simp
next
  case (Cons a s)
  show ?case
  proof (cases "P a")
    case True
    with Cons show ?thesis by auto
  next
    case False
    obtain x xs where sp: "splitf P s = x # xs"
      using splitf_nonempty [of P s] by (cases "splitf P s") auto
    with False Cons.prems have "seg = a # x \<or> seg \<in> set xs" by simp
    then show ?thesis
    proof
      assume "seg = a # x"
      with Cons.prems(2) have "c = a \<or> c \<in> set x" by simp
      then show ?thesis
      proof
        assume "c = a" with False show ?thesis by simp
      next
        assume "c \<in> set x"
        moreover have "x \<in> set (splitf P s)" using sp by simp
        ultimately show ?thesis using Cons.IH by blast
      qed
    next
      assume "seg \<in> set xs"
      then have "seg \<in> set (splitf P s)" using sp by simp
      with Cons.prems(2) show ?thesis using Cons.IH by blast
    qed
  qed
qed

lemma splitf_join_amp:
  "xs \<noteq> [] \<Longrightarrow> \<forall>x \<in> set xs. CHR ''&'' \<notin> set x
     \<Longrightarrow> splitf (\<lambda>c. c = CHR ''&'') (join_amp xs) = xs"
proof (induction xs rule: join_amp.induct)
  case 1
  then show ?case by simp
next
  case (2 x)
  then show ?case by (auto intro: splitf_plain)
next
  case (3 x y ys)
  then have "splitf (\<lambda>c. c = CHR ''&'') (join_amp (y # ys)) = y # ys" by simp
  moreover have "\<forall>c \<in> set x. \<not> c = CHR ''&''" using 3 by auto
  ultimately show ?case by (simp add: splitf_append_sep)
qed

lemma form_char_not_eq: "form_char x \<Longrightarrow> x \<noteq> CHR ''='' \<and> x \<noteq> CHR ''&'' \<and> x \<noteq> CHR ''#''"
  by (auto simp: form_char_def form_safe_code char_eq_code [of x] code_def)

lemma form_encode_no_eq: "CHR ''='' \<notin> set (form_encode s)"
  using form_encode_chars form_char_not_eq by blast

lemma form_encode_no_amp: "CHR ''&'' \<notin> set (form_encode s)"
  using form_encode_chars form_char_not_eq by blast

lemma takeWhile_stop: "\<forall>c \<in> set a. P c \<Longrightarrow> \<not> P d \<Longrightarrow> takeWhile P (a @ d # b) = a"
  by (induction a) auto

lemma dropWhile_stop: "\<forall>c \<in> set a. P c \<Longrightarrow> \<not> P d \<Longrightarrow> dropWhile P (a @ d # b) = d # b"
  by (induction a) auto

lemma takeWhile_all: "\<forall>c \<in> set a. P c \<Longrightarrow> takeWhile P a = a"
  by (induction a) auto

lemma dropWhile_all: "\<forall>c \<in> set a. P c \<Longrightarrow> dropWhile P a = []"
  by (induction a) auto

lemma qs_pair_encode: "qs_pair (form_encode n @ CHR ''='' # form_encode v) = (n, v)"
proof -
  have a: "\<forall>c \<in> set (form_encode n). c \<noteq> CHR ''=''"
    using form_encode_no_eq [of n] by auto
  show ?thesis
    by (simp add: qs_pair_def takeWhile_stop [OF a] dropWhile_stop [OF a] form_decode_encode)
qed

lemma qs_parse_serialize: "qs_parse (qs_serialize l) = l"
proof (cases l)
  case Nil
  then show ?thesis by (simp add: qs_parse_def qs_serialize_def)
next
  case (Cons p ps)
  let ?enc = "\<lambda>(n, v). form_encode n @ CHR ''='' # form_encode v"
  let ?xs = "map ?enc l"
  have ne: "?xs \<noteq> []" using Cons by simp
  have amp: "\<forall>x \<in> set ?xs. CHR ''&'' \<notin> set x"
    using form_encode_no_amp by auto
  have sp: "splitf (\<lambda>c. c = CHR ''&'') (join_amp ?xs) = ?xs"
    using ne amp by (rule splitf_join_amp)
  have fl: "filter (\<lambda>sq. sq \<noteq> []) ?xs = ?xs"
    by (rule filter_True) auto
  have "map qs_pair ?xs = l"
    by (rule map_idI [of l "qs_pair \<circ> ?enc", unfolded map_map [symmetric]])
       (auto simp: qs_pair_encode)
  with sp fl show ?thesis by (simp add: qs_parse_def qs_serialize_def)
qed

lemma set_first_idem: "set_first k v (set_first k v l) = set_first k v l"
  by (induction l) auto

lemma set_first_absent: "k \<notin> fst ` set l \<Longrightarrow> set_first k v (l @ [(k, v)]) = l @ [(k, v)]"
  by (induction l) auto

lemma keys_filter: "fst ` set (filter (\<lambda>p. fst p \<noteq> k) l) = fst ` set l - {k}"
  by (induction l) auto

lemma keys_set_first: "fst ` set (set_first k v l) = fst ` set l"
proof (induction l)
  case Nil
  show ?case by simp
next
  case (Cons p l)
  obtain n x where p: "p = (n, x)" by (cases p)
  show ?case
  proof (cases "n = k")
    case True
    have "fst ` set (set_first k v (p # l)) = insert k (fst ` set (filter (\<lambda>p. fst p \<noteq> k) l))"
      using True p by (simp del: set_filter)
    also have "\<dots> = insert k (fst ` set l - {k})"
      by (simp only: keys_filter)
    also have "\<dots> = insert k (fst ` set l)" by blast
    finally show ?thesis using True p by simp
  next
    case False
    then show ?thesis using p Cons.IH by simp
  qed
qed

lemma keys_set_pair: "fst ` set (set_pair k v l) = insert k (fst ` set l)"
  by (auto simp: set_pair_def keys_set_first list_ex_iff)

lemma list_ex_keys: "list_ex (\<lambda>p. fst p = k) l = (k \<in> fst ` set l)"
  by (auto simp: list_ex_iff)

lemma has_set_pair:
  "list_ex (\<lambda>p. fst p = k') (set_pair k v l) = (k' = k \<or> list_ex (\<lambda>p. fst p = k') l)"
  by (simp add: list_ex_keys keys_set_pair)

lemma set_pair_idem: "set_pair k v (set_pair k v l) = set_pair k v l"
proof (cases "list_ex (\<lambda>p. fst p = k) l")
  case True
  then have "list_ex (\<lambda>p. fst p = k) (set_first k v l)"
    by (simp add: list_ex_keys keys_set_first)
  with True show ?thesis by (simp add: set_pair_def set_first_idem)
next
  case False
  then have "k \<notin> fst ` set l" by (simp add: list_ex_keys)
  then have "set_first k v (l @ [(k, v)]) = l @ [(k, v)]" by (rule set_first_absent)
  with False show ?thesis by (simp add: set_pair_def)
qed

subsection \<open>What the parser returns\<close>

lemma host_ok_lower: "host_ok c \<Longrightarrow> host_norm (lower c)"
proof -
  assume h: "host_ok c"
  have l: "lower (lower c) = lower c"
    by (auto simp: char_eq_code [of "lower (lower c)"] code_lower)
  from h have "host_ok (lower c)"
    by (auto simp: host_ok_code code_lower)
  with l show ?thesis by (simp add: host_norm_def)
qed

lemma escape_not_path: "escape_char x \<Longrightarrow> \<not> path_set x \<and> \<not> is_sep x"
  by (auto simp: escape_char_def path_set_code is_sep_code)

lemma escape_not_query: "escape_char x \<Longrightarrow> \<not> special_query_set x"
  by (auto simp: escape_char_def special_query_set_code)

lemma escape_not_fragment: "escape_char x \<Longrightarrow> \<not> fragment_set x"
  by (auto simp: escape_char_def fragment_set_code)

lemma seg_ok_Nil: "seg_ok []"
  by (simp add: seg_ok_def is_single_dot_def is_double_dot_def)

lemma seg_ok_encode:
  assumes "\<forall>c \<in> set seg. \<not> is_sep c"
    and "\<not> is_double_dot (pct_encode path_set seg)"
    and "\<not> is_single_dot (pct_encode path_set seg)"
  shows "seg_ok (pct_encode path_set seg)"
proof -
  have "\<not> path_set x \<and> \<not> is_sep x" if "x \<in> set (pct_encode path_set seg)" for x
    using pct_encode_chars [OF that] assms(1) escape_not_path by blast
  with assms(2,3) show ?thesis by (simp add: seg_ok_def)
qed

lemma walk_valid:
  assumes "raw \<noteq> []"
    and "\<forall>seg \<in> set raw. \<forall>c \<in> set seg. \<not> is_sep c"
    and "\<forall>seg \<in> set acc. seg_ok seg"
  shows "walk raw acc \<noteq> [] \<and> (\<forall>seg \<in> set (walk raw acc). seg_ok seg)"
  using assms
proof (induction raw arbitrary: acc)
  case Nil
  then show ?case by simp
next
  case (Cons seg rest)
  let ?b = "pct_encode path_set seg"
  have nosep: "\<forall>c \<in> set seg. \<not> is_sep c" using Cons.prems(2) by simp
  have bl: "\<forall>s \<in> set (butlast acc). seg_ok s"
    using Cons.prems(3) by (meson in_set_butlastD)
  show ?case
  proof (cases "rest = []")
    case True
    show ?thesis
    proof (cases "is_double_dot ?b")
      case True
      with \<open>rest = []\<close> bl show ?thesis by (auto simp: seg_ok_Nil)
    next
      case dd: False
      show ?thesis
      proof (cases "is_single_dot ?b")
        case True
        with dd \<open>rest = []\<close> Cons.prems(3) show ?thesis by (auto simp: seg_ok_Nil)
      next
        case False
        with dd nosep have "seg_ok ?b" by (intro seg_ok_encode) simp_all
        with dd False \<open>rest = []\<close> Cons.prems(3) show ?thesis by auto
      qed
    qed
  next
    case False
    have r: "\<forall>seg \<in> set rest. \<forall>c \<in> set seg. \<not> is_sep c" using Cons.prems(2) by simp
    show ?thesis
    proof (cases "is_double_dot ?b")
      case True
      with False Cons.IH [OF False r, of "butlast acc"] bl show ?thesis by simp
    next
      case dd: False
      show ?thesis
      proof (cases "is_single_dot ?b")
        case True
        with dd False Cons.IH [OF False r, of acc] Cons.prems(3) show ?thesis by simp
      next
        case sd: False
        with dd nosep have "seg_ok ?b" by (intro seg_ok_encode) simp_all
        with Cons.prems(3) have "\<forall>s \<in> set (acc @ [?b]). seg_ok s" by simp
        with dd sd False Cons.IH [OF False r, of "acc @ [?b]"] show ?thesis by simp
      qed
    qed
  qed
qed

lemma query_of_chars: "query_of r = Some q \<Longrightarrow> c \<in> set q \<Longrightarrow> \<not> special_query_set c"
  using pct_encode_chars escape_not_query
  by (fastforce simp: query_of_def split: list.splits if_splits)

lemma fragment_of_chars: "fragment_of r = Some f \<Longrightarrow> c \<in> set f \<Longrightarrow> \<not> fragment_set c"
  using pct_encode_chars escape_not_fragment
  by (fastforce simp: fragment_of_def split: list.splits)

lemma parse_url_valid:
  assumes "parse_url s = Some u"
  shows "valid_url u"
proof -
  define s1 where "s1 = clean s"
  define scheme where "scheme = (if prefix ''https:'' (map lower s1) then ''https'' else ''http'')"
  define r0 where "r0 = dropWhile is_sep (drop (length scheme + 1) s1)"
  define authority where "authority = takeWhile in_authority r0"
  define r1 where "r1 = dropWhile in_authority r0"
  have eq: "parse_url s =
     (if \<not> (prefix ''http:'' (map lower s1) \<or> prefix ''https:'' (map lower s1)) then None
      else if authority = [] \<or> \<not> list_all host_ok authority then None
      else Some \<lparr> u_scheme = scheme,
                  u_host = map lower authority,
                  u_path = walk (splitf is_sep (tl (takeWhile in_path r1))) [],
                  u_query = query_of (dropWhile in_path r1),
                  u_fragment = fragment_of (after_query (dropWhile in_path r1)) \<rparr>)"
    unfolding parse_url_def Let_def s1_def scheme_def r0_def authority_def r1_def by (rule refl)
  from assms have auth: "authority \<noteq> []" "list_all host_ok authority"
    and u: "u = \<lparr> u_scheme = scheme,
                  u_host = map lower authority,
                  u_path = walk (splitf is_sep (tl (takeWhile in_path r1))) [],
                  u_query = query_of (dropWhile in_path r1),
                  u_fragment = fragment_of (after_query (dropWhile in_path r1)) \<rparr>"
    unfolding eq by (simp_all split: if_splits)
  have 1: "u_scheme u = ''http'' \<or> u_scheme u = ''https''"
    using u by (simp add: scheme_def)
  have 2: "u_host u \<noteq> []" using u auth by simp
  have 3: "\<forall>c \<in> set (u_host u). host_norm c"
    using u auth(2) by (auto simp: list_all_iff host_ok_lower)
  have "walk (splitf is_sep (tl (takeWhile in_path r1))) [] \<noteq> []
      \<and> (\<forall>seg \<in> set (walk (splitf is_sep (tl (takeWhile in_path r1))) []). seg_ok seg)"
    by (rule walk_valid) (auto simp: splitf_nonempty dest: splitf_no_sep)
  then have 4: "u_path u \<noteq> []" and 5: "\<forall>seg \<in> set (u_path u). seg_ok seg"
    using u by simp_all
  have 6: "\<forall>q. u_query u = Some q \<longrightarrow> (\<forall>c \<in> set q. \<not> special_query_set c)"
    using u query_of_chars by auto
  have 7: "\<forall>f. u_fragment u = Some f \<longrightarrow> (\<forall>c \<in> set f. \<not> fragment_set c)"
    using u fragment_of_chars by auto
  from 1 2 3 4 5 6 7 show ?thesis by (simp add: valid_url_def)
qed

subsection \<open>Parsing a serialised URL\<close>

lemma not_path_plain: "\<not> path_set c \<Longrightarrow> plain c"
  by (simp add: path_set_code plain_def) arith

lemma not_query_plain: "\<not> special_query_set c \<Longrightarrow> plain c"
  by (simp add: special_query_set_code plain_def)

lemma not_fragment_plain: "\<not> fragment_set c \<Longrightarrow> plain c"
  by (simp add: fragment_set_code plain_def)

lemma host_ok_plain: "host_ok c \<Longrightarrow> plain c"
  by (auto simp: host_ok_code plain_def)

lemma plain_not_c0: "plain c \<Longrightarrow> \<not> c0_or_space c \<and> \<not> tab_or_newline c"
  by (auto simp: plain_def c0_or_space_def tab_or_newline_code)

lemma dropWhile_none: "\<forall>c \<in> set s. \<not> P c \<Longrightarrow> dropWhile P s = s"
  by (cases s) auto

lemma clean_plain: "\<forall>c \<in> set s. plain c \<Longrightarrow> clean s = s"
proof -
  assume a: "\<forall>c \<in> set s. plain c"
  then have 1: "dropWhile c0_or_space s = s"
    by (intro dropWhile_none) (auto dest: plain_not_c0)
  from a have 2: "dropWhile c0_or_space (rev s) = rev s"
    by (intro dropWhile_none) (auto dest: plain_not_c0)
  from a have 3: "filter (\<lambda>c. \<not> tab_or_newline c) s = s"
    by (intro filter_True) (auto dest: plain_not_c0)
  show ?thesis by (simp add: clean_def 1 2 3)
qed

lemma href_parts: "href u = u_scheme u @ ''://'' @ u_host u @ path_string u @ query_fragment u"
  by (simp add: href_def query_fragment_def)

lemma path_string_chars:
  "c \<in> set (path_string u) \<Longrightarrow> c = CHR ''/'' \<or> (\<exists>seg \<in> set (u_path u). c \<in> set seg)"
  by (auto simp: path_string_def split: if_splits)

lemma path_string_plain:
  assumes "valid_url u" and "c \<in> set (path_string u)"
  shows "plain c \<and> in_path c"
proof -
  from path_string_chars [OF assms(2)] show ?thesis
  proof
    assume "c = CHR ''/''"
    then show ?thesis by (simp add: plain_def in_path_def code_def)
  next
    assume "\<exists>seg \<in> set (u_path u). c \<in> set seg"
    then obtain seg where "seg \<in> set (u_path u)" and "c \<in> set seg" by blast
    with assms(1) have np: "\<not> path_set c" by (auto simp: valid_url_def seg_ok_def)
    then have "plain c" by (rule not_path_plain)
    moreover from np have "in_path c"
      by (auto simp: in_path_def path_set_code code_def)
    ultimately show ?thesis by simp
  qed
qed

lemma query_fragment_plain:
  assumes "valid_url u" and "c \<in> set (query_fragment u)"
  shows "plain c"
proof -
  have qm: "plain CHR ''?''" and hm: "plain CHR ''#''" by (simp_all add: plain_def code_def)
  from assms(2) have "(\<exists>q. u_query u = Some q \<and> (c = CHR ''?'' \<or> c \<in> set q))
      \<or> (\<exists>f. u_fragment u = Some f \<and> (c = CHR ''#'' \<or> c \<in> set f))"
    by (auto simp: query_fragment_def split: option.splits)
  then show ?thesis
  proof (elim disjE exE conjE)
    fix q assume "u_query u = Some q" and "c = CHR ''?''"
    then show ?thesis using qm by simp
  next
    fix q assume "u_query u = Some q" and "c \<in> set q"
    with assms(1) show ?thesis by (auto simp: valid_url_def intro: not_query_plain)
  next
    fix f assume "u_fragment u = Some f" and "c = CHR ''#''"
    then show ?thesis using hm by simp
  next
    fix f assume "u_fragment u = Some f" and "c \<in> set f"
    with assms(1) show ?thesis by (auto simp: valid_url_def intro: not_fragment_plain)
  qed
qed

lemma host_plain:
  assumes "valid_url u" and "c \<in> set (u_host u)"
  shows "plain c" and "in_authority c" and "host_ok c" and "lower c = c"
proof -
  from assms have hn: "host_norm c" by (simp add: valid_url_def)
  then show "host_ok c" and "lower c = c" by (simp_all add: host_norm_def)
  then show "plain c" by (simp add: host_ok_plain)
  from \<open>host_ok c\<close> show "in_authority c"
    by (auto simp: in_authority_def host_ok_code is_sep_code code_def)
qed

lemma scheme_plain:
  assumes "valid_url u" and "c \<in> set (u_scheme u @ ''://'')"
  shows "plain c"
  using assms by (auto simp: valid_url_def plain_def code_def)

lemma href_plain:
  assumes "valid_url u" and "c \<in> set (href u)"
  shows "plain c"
proof -
  from assms(2) have "c \<in> set (u_scheme u @ ''://'') \<or> c \<in> set (u_host u)
      \<or> c \<in> set (path_string u) \<or> c \<in> set (query_fragment u)"
    by (auto simp: href_parts)
  then show ?thesis
    using assms(1) scheme_plain host_plain(1) path_string_plain query_fragment_plain by blast
qed

lemma path_string_Cons: "u_path u = s1 # rest \<Longrightarrow>
    path_string u = CHR ''/'' # s1 @ concat (map (\<lambda>seg. CHR ''/'' # seg) rest)"
  by (simp add: path_string_def)

lemma splitf_path:
  "\<forall>seg \<in> set (s1 # rest). \<forall>c \<in> set seg. \<not> is_sep c \<Longrightarrow>
     splitf is_sep (s1 @ concat (map (\<lambda>seg. CHR ''/'' # seg) rest)) = s1 # rest"
proof (induction rest arbitrary: s1)
  case Nil
  then show ?case by (simp add: splitf_plain)
next
  case (Cons r rs)
  have "splitf is_sep (s1 @ CHR ''/'' # (r @ concat (map (\<lambda>seg. CHR ''/'' # seg) rs)))
      = s1 # splitf is_sep (r @ concat (map (\<lambda>seg. CHR ''/'' # seg) rs))"
    using Cons.prems by (intro splitf_append_sep) (simp_all add: is_sep_def)
  moreover have "splitf is_sep (r @ concat (map (\<lambda>seg. CHR ''/'' # seg) rs)) = r # rs"
    using Cons.prems by (intro Cons.IH) simp
  ultimately show ?case by simp
qed

lemma walk_normal: "\<forall>seg \<in> set raw. seg_ok seg \<Longrightarrow> walk raw acc = acc @ raw"
proof (induction raw arbitrary: acc)
  case Nil
  show ?case by simp
next
  case (Cons seg rest)
  then have ok: "seg_ok seg" by simp
  then have "pct_encode path_set seg = seg"
    by (intro pct_encode_id) (simp add: seg_ok_def)
  with ok Cons show ?case by (simp add: seg_ok_def)
qed

lemma take_drop_stop:
  assumes "\<forall>c \<in> set a. P c" and "b = [] \<or> \<not> P (hd b)"
  shows "takeWhile P (a @ b) = a" and "dropWhile P (a @ b) = b"
proof -
  show "takeWhile P (a @ b) = a"
    using assms by (cases b) (simp_all add: takeWhile_all takeWhile_stop)
  show "dropWhile P (a @ b) = b"
    using assms by (cases b) (simp_all add: dropWhile_all dropWhile_stop)
qed

lemma query_fragment_head:
  "query_fragment u = [] \<or> \<not> in_path (hd (query_fragment u))"
  by (auto simp: query_fragment_def in_path_def split: option.splits)

lemma query_of_qf:
  assumes "valid_url u"
  shows "query_of (query_fragment u) = u_query u
    \<and> fragment_of (after_query (query_fragment u)) = u_fragment u"
proof -
  let ?ft = "case u_fragment u of None \<Rightarrow> [] | Some f \<Rightarrow> CHR ''#'' # f"
  have fid: "pct_encode fragment_set f = f" if "u_fragment u = Some f" for f
    using assms that by (intro pct_encode_id) (simp add: valid_url_def)
  have f0: "fragment_of ?ft = u_fragment u"
    by (cases "u_fragment u") (simp_all add: fragment_of_def fid)
  show ?thesis
  proof (cases "u_query u")
    case None
    then have qf: "query_fragment u = ?ft"
      by (simp add: query_fragment_def)
    have 1: "query_of ?ft = None"
      by (cases "u_fragment u") (simp_all add: query_of_def)
    have 2: "after_query ?ft = ?ft"
      by (cases "u_fragment u") (simp_all add: after_query_def)
    show ?thesis unfolding qf 1 2 f0 using None by simp
  next
    case (Some q)
    have qf: "query_fragment u = CHR ''?'' # q @ ?ft"
      using Some by (simp add: query_fragment_def)
    have nq: "\<forall>c \<in> set q. \<not> special_query_set c"
      using assms Some by (simp add: valid_url_def)
    then have nh: "\<forall>c \<in> set q. c \<noteq> CHR ''#''"
      by (auto simp: special_query_set_code code_def)
    have hd: "?ft = [] \<or> \<not> (hd ?ft \<noteq> CHR ''#'')"
      by (cases "u_fragment u") simp_all
    have t: "takeWhile (\<lambda>c. c \<noteq> CHR ''#'') (q @ ?ft) = q"
      and d: "dropWhile (\<lambda>c. c \<noteq> CHR ''#'') (q @ ?ft) = ?ft"
      using take_drop_stop [OF nh hd] by simp_all
    have e: "pct_encode special_query_set q = q"
      using nq by (rule pct_encode_id)
    have 1: "query_of (CHR ''?'' # q @ ?ft) = Some q"
      by (simp add: query_of_def t e)
    have 2: "after_query (CHR ''?'' # q @ ?ft) = ?ft"
      by (simp add: after_query_def d)
    show ?thesis unfolding qf 1 2 f0 using Some by simp
  qed
qed

lemma parse_href:
  assumes v: "valid_url u"
  shows "parse_url (href u) = Some u"
proof -
  let ?rest = "u_host u @ path_string u @ query_fragment u"
  have h: "href u = u_scheme u @ ''://'' @ ?rest" by (rule href_parts)
  have cl: "clean (href u) = href u"
    using href_plain [OF v] by (intro clean_plain) simp
  have sch: "u_scheme u = ''http'' \<or> u_scheme u = ''https''"
    using v by (simp add: valid_url_def)
  have low: "lower CHR ''h'' = CHR ''h''" "lower CHR ''t'' = CHR ''t''" "lower CHR ''p'' = CHR ''p''"
     "lower CHR ''s'' = CHR ''s''" "lower CHR '':'' = CHR '':''"
    by (simp_all add: lower_def)
  have pre: "prefix ''http:'' (map lower (href u)) \<or> prefix ''https:'' (map lower (href u))"
    using sch by (auto simp: h low)
  have sc: "(if prefix ''https:'' (map lower (href u)) then ''https'' else ''http'') = u_scheme u"
    using sch by (auto simp: h low)
  obtain s1 segs where path: "u_path u = s1 # segs"
    using v by (cases "u_path u") (auto simp: valid_url_def)
  have ps: "path_string u = CHR ''/'' # s1 @ concat (map (\<lambda>seg. CHR ''/'' # seg) segs)"
    using path by (rule path_string_Cons)
  have hne: "u_host u \<noteq> []" using v by (simp add: valid_url_def)
  then have "\<not> is_sep (hd (u_host u))"
    using host_plain(2) [OF v, of "hd (u_host u)"] by (simp add: in_authority_def)
  then have "dropWhile is_sep ?rest = ?rest"
    using hne by (cases "u_host u") simp_all
  then have r0: "dropWhile is_sep (drop (length (u_scheme u) + 1) (href u)) = ?rest"
    using sch by (auto simp: h is_sep_def)
  have ha: "\<forall>c \<in> set (u_host u). in_authority c"
    using host_plain(2) [OF v] by simp
  have stop: "path_string u @ query_fragment u = [] \<or> \<not> in_authority (hd (path_string u @ query_fragment u))"
    by (simp add: ps in_authority_def is_sep_def)
  have au: "takeWhile in_authority ?rest = u_host u"
    and r1: "dropWhile in_authority ?rest = path_string u @ query_fragment u"
    using take_drop_stop [OF ha stop] by simp_all
  have hok: "list_all host_ok (u_host u)"
    using host_plain(3) [OF v] by (simp add: list_all_iff)
  have lo: "map lower (u_host u) = u_host u"
    using host_plain(4) [OF v] by (intro map_idI) simp
  have pp: "\<forall>c \<in> set (path_string u). in_path c"
    using path_string_plain [OF v] by simp
  have p: "takeWhile in_path (path_string u @ query_fragment u) = path_string u"
    and r2: "dropWhile in_path (path_string u @ query_fragment u) = query_fragment u"
    using take_drop_stop [OF pp query_fragment_head] by simp_all
  have nosep: "\<forall>seg \<in> set (s1 # segs). \<forall>c \<in> set seg. \<not> is_sep c"
    using v path by (auto simp: valid_url_def seg_ok_def)
  have sp: "splitf is_sep (tl (path_string u)) = u_path u"
    using splitf_path [OF nosep] by (simp add: ps path)
  have wk: "walk (u_path u) [] = u_path u"
    using v by (simp add: walk_normal valid_url_def)
  show ?thesis
    unfolding parse_url_def Let_def cl sc r0 au r1 p r2 sp wk lo
      query_of_qf [OF v, THEN conjunct1] query_of_qf [OF v, THEN conjunct2]
    using pre hne hok by simp
qed

subsection \<open>Trimming\<close>

lemma strip_front_none:
  "find (\<lambda>w. w \<noteq> [] \<and> prefix w s) ws = None \<Longrightarrow> strip_front ws s = s"
  by (subst strip_front.simps) simp

lemma strip_front_stable:
  "find (\<lambda>w. w \<noteq> [] \<and> prefix w (strip_front ws s)) ws = None"
proof (induction ws s rule: strip_front.induct)
  case (1 ws s)
  show ?case
  proof (cases "find (\<lambda>w. w \<noteq> [] \<and> prefix w s) ws")
    case None
    then show ?thesis by (simp add: strip_front_none)
  next
    case (Some w)
    then have "strip_front ws s = strip_front ws (drop (length w) s)"
      by (subst strip_front.simps) simp
    with 1 Some show ?thesis by simp
  qed
qed

lemma strip_front_idem: "strip_front ws (strip_front ws s) = strip_front ws s"
  by (rule strip_front_none) (rule strip_front_stable)

lemma strip_front_suffix: "suffix (strip_front ws s) s"
proof (induction ws s rule: strip_front.induct)
  case (1 ws s)
  show ?case
  proof (cases "find (\<lambda>w. w \<noteq> [] \<and> prefix w s) ws")
    case None
    then show ?thesis by (simp add: strip_front_none)
  next
    case (Some w)
    then have eq: "strip_front ws s = strip_front ws (drop (length w) s)"
      by (subst strip_front.simps) simp
    have "suffix (strip_front ws (drop (length w) s)) (drop (length w) s)"
      using 1 Some by simp
    then have "suffix (strip_front ws (drop (length w) s)) s"
      using suffix_drop suffix_order.trans by blast
    with eq show ?thesis by simp
  qed
qed

lemma strip_back_prefix: "prefix (strip_back ws s) s"
proof -
  have "suffix (strip_front (map rev ws) (rev s)) (rev s)"
    by (rule strip_front_suffix)
  then show ?thesis
    by (simp add: strip_back_def suffix_to_prefix)
qed

lemma strip_back_idem: "strip_back ws (strip_back ws s) = strip_back ws s"
  by (simp add: strip_back_def strip_front_idem)

lemma find_prefix_mono:
  assumes "find (\<lambda>w. w \<noteq> [] \<and> prefix w s) ws = None" and "prefix t s"
  shows "find (\<lambda>w. w \<noteq> [] \<and> prefix w t) ws = None"
  using assms by (auto simp: find_None_iff dest: prefix_order.trans)

lemma trim_idem: "trim (trim s) = trim s"
proof -
  let ?a = "strip_front ws_seqs s"
  let ?b = "strip_back ws_seqs ?a"
  have "find (\<lambda>w. w \<noteq> [] \<and> prefix w ?b) ws_seqs = None"
    using strip_front_stable strip_back_prefix by (rule find_prefix_mono)
  then have "strip_front ws_seqs ?b = ?b" by (rule strip_front_none)
  then show ?thesis by (simp add: trim_def strip_back_idem)
qed

lemma trim_Nil: "trim [] = []"
  by (simp add: trim_def strip_back_def strip_front_none ws_seqs_def)

lemma ws_ends_all: "list_all (\<lambda>w. w \<noteq> [] \<and> \<not> plain (hd w) \<and> \<not> plain (last w)) ws_seqs"
  by (simp add: ws_seqs_def plain_def code_def)

lemma ws_ends: "w \<in> set ws_seqs \<Longrightarrow> w \<noteq> [] \<and> \<not> plain (hd w) \<and> \<not> plain (last w)"
  using ws_ends_all by (simp add: list_all_iff)

lemma strip_front_id:
  assumes "s \<noteq> []" and "\<forall>w \<in> set ws. w \<noteq> [] \<longrightarrow> hd w \<noteq> hd s"
  shows "strip_front ws s = s"
proof (rule strip_front_none)
  have "hd w = hd s" if "w \<noteq> []" and "prefix w s" for w
    using that assms(1) by (cases w; cases s) auto
  with assms(2) show "find (\<lambda>w. w \<noteq> [] \<and> prefix w s) ws = None"
    by (auto simp: find_None_iff)
qed

lemma trim_plain:
  assumes "s \<noteq> []" and "plain (hd s)" and "plain (last s)"
  shows "trim s = s"
proof -
  have 1: "strip_front ws_seqs s = s"
  proof (rule strip_front_id)
    show "s \<noteq> []" by (rule assms(1))
    show "\<forall>w \<in> set ws_seqs. w \<noteq> [] \<longrightarrow> hd w \<noteq> hd s"
    proof (intro ballI impI notI)
      fix w assume "w \<in> set ws_seqs" and "hd w = hd s"
      with ws_ends [of w] assms(2) show False by simp
    qed
  qed
  have "strip_front (map rev ws_seqs) (rev s) = rev s"
  proof (rule strip_front_id)
    show "rev s \<noteq> []" using assms(1) by simp
    show "\<forall>w \<in> set (map rev ws_seqs). w \<noteq> [] \<longrightarrow> hd w \<noteq> hd (rev s)"
    proof (intro ballI impI notI)
      fix w assume "w \<in> set (map rev ws_seqs)" and e: "hd w = hd (rev s)"
      then obtain w' where w': "w' \<in> set ws_seqs" and "w = rev w'" by auto
      with e have "last w' = last s"
        using ws_ends [of w'] assms(1) by (simp add: hd_rev)
      with ws_ends [OF w'] assms(3) show False by simp
    qed
  qed
  then have 2: "strip_back ws_seqs s = s" by (simp add: strip_back_def)
  show ?thesis by (simp add: trim_def 1 2)
qed

lemma strip_front_fixed:
  "(strip_front ws s = s) = (find (\<lambda>w. w \<noteq> [] \<and> prefix w s) ws = None)"
proof (cases "find (\<lambda>w. w \<noteq> [] \<and> prefix w s) ws")
  case None
  then show ?thesis by (simp add: strip_front_none)
next
  case (Some w)
  then have w: "w \<noteq> []" and p: "prefix w s" by (auto simp: find_Some_iff)
  have "strip_front ws s = strip_front ws (drop (length w) s)"
    using Some by (subst strip_front.simps) simp
  moreover have "length (strip_front ws (drop (length w) s)) \<le> length (drop (length w) s)"
    using strip_front_suffix by (rule suffix_length_le)
  moreover have "length (drop (length w) s) < length s"
    using w p prefix_length_le [OF p] by (cases w) auto
  ultimately have "strip_front ws s \<noteq> s" by auto
  with Some show ?thesis by simp
qed

lemma ws_nonempty: "list_all (\<lambda>w. w \<noteq> []) ws_seqs"
  by (simp add: ws_seqs_def)

lemma strip_back_fixed:
  "(strip_back ws_seqs s = s) = (\<not> list_ex (\<lambda>w. suffix w s) ws_seqs)"
proof -
  have "(strip_back ws_seqs s = s) = (strip_front (map rev ws_seqs) (rev s) = rev s)"
    by (auto simp: strip_back_def rev_swap)
  also have "\<dots> = (find (\<lambda>w. w \<noteq> [] \<and> prefix w (rev s)) (map rev ws_seqs) = None)"
    by (rule strip_front_fixed)
  also have "\<dots> = (\<forall>w \<in> set ws_seqs. \<not> suffix w s)"
    using ws_nonempty by (auto simp: find_None_iff list_all_iff suffix_to_prefix)
  finally show ?thesis by (simp add: list_ex_iff)
qed

lemma strip_back_length: "length (strip_back ws s) \<le> length s"
  using strip_back_prefix by (rule prefix_length_le)

lemma strip_back_full:
  assumes "length (strip_back ws s) = length s"
  shows "strip_back ws s = s"
proof -
  obtain zs where z: "s = strip_back ws s @ zs"
    using strip_back_prefix [of ws s] by (auto simp: prefix_def)
  then have "length s = length (strip_back ws s) + length zs"
    by (metis length_append)
  with assms have "zs = []" by simp
  with z show ?thesis by simp
qed

lemma ws_bytes: "list_all (list_all (\<lambda>c. \<not> plain c)) ws_seqs"
  by (simp add: ws_seqs_def plain_def code_def)

lemma prefix_append_stop:
  assumes "b \<noteq> []" and "hd b \<notin> set w"
  shows "prefix w (a @ b) = prefix w a"
proof
  assume "prefix w (a @ b)"
  then have "prefix w a \<or> (\<exists>us. w = a @ us \<and> prefix us b)"
    by (simp add: prefix_append)
  then show "prefix w a"
  proof
    assume "prefix w a"
    then show ?thesis .
  next
    assume "\<exists>us. w = a @ us \<and> prefix us b"
    then obtain us where w: "w = a @ us" and p: "prefix us b" by blast
    show ?thesis
    proof (cases us)
      case Nil
      with w show ?thesis by simp
    next
      case (Cons x xs)
      with p assms(1) have "hd b = x" by (cases b) auto
      with w Cons have "hd b \<in> set w" by simp
      with assms(2) show ?thesis by simp
    qed
  qed
next
  assume "prefix w a"
  then show "prefix w (a @ b)" by (rule prefix_prefix)
qed

lemma strip_front_append:
  "b \<noteq> [] \<Longrightarrow> \<forall>w \<in> set ws. hd b \<notin> set w
     \<Longrightarrow> strip_front ws (a @ b) = strip_front ws a @ b"
proof (induction ws a rule: strip_front.induct)
  case (1 ws s)
  have "find (\<lambda>w. w \<noteq> [] \<and> prefix w (s @ b)) ws = find (\<lambda>w. w \<noteq> [] \<and> prefix w s) ws"
    using 1(2,3) by (intro find_cong) (simp_all add: prefix_append_stop)
  then have f: "strip_front ws (s @ b) =
      (case find (\<lambda>w. w \<noteq> [] \<and> prefix w s) ws of
         Some w \<Rightarrow> strip_front ws (drop (length w) (s @ b))
       | None \<Rightarrow> s @ b)"
    by (subst strip_front.simps) simp
  show ?case
  proof (cases "find (\<lambda>w. w \<noteq> [] \<and> prefix w s) ws")
    case None
    then show ?thesis using f by (simp add: strip_front_none)
  next
    case (Some w)
    then have p: "prefix w s" by (auto simp: find_Some_iff)
    then have "length w \<le> length s" by (rule prefix_length_le)
    then have "drop (length w) (s @ b) = drop (length w) s @ b" by simp
    then have "strip_front ws (s @ b) = strip_front ws (drop (length w) s) @ b"
      using f Some 1 by simp
    moreover have "strip_front ws s = strip_front ws (drop (length w) s)"
      using Some by (subst strip_front.simps) simp
    ultimately show ?thesis by simp
  qed
qed

lemma strip_back_append:
  assumes "a \<noteq> []" and "plain (last a)"
  shows "strip_back ws_seqs (a @ s) = a @ strip_back ws_seqs s"
proof -
  have "\<forall>w \<in> set (map rev ws_seqs). hd (rev a) \<notin> set w"
  proof
    fix w assume "w \<in> set (map rev ws_seqs)"
    then obtain w' where "w' \<in> set ws_seqs" and w: "w = rev w'" by auto
    then have "\<forall>c \<in> set w'. \<not> plain c"
      using ws_bytes by (simp add: list_all_iff)
    moreover have "plain (hd (rev a))" using assms by (simp add: hd_rev)
    ultimately show "hd (rev a) \<notin> set w" using w by auto
  qed
  then have "strip_front (map rev ws_seqs) (rev s @ rev a)
      = strip_front (map rev ws_seqs) (rev s) @ rev a"
    using assms(1) by (intro strip_front_append) simp_all
  then show ?thesis by (simp add: strip_back_def)
qed

lemma trim_drive: "trim (drive_direct fid) = drive_direct (strip_back ws_seqs fid)"
proof -
  have "strip_front ws_seqs (drive_direct fid) = drive_direct fid"
  proof (rule strip_front_id)
    show "drive_direct fid \<noteq> []" by (simp add: drive_direct_def)
    show "\<forall>w \<in> set ws_seqs. w \<noteq> [] \<longrightarrow> hd w \<noteq> hd (drive_direct fid)"
    proof (intro ballI impI notI)
      fix w assume "w \<in> set ws_seqs" and "hd w = hd (drive_direct fid)"
      with ws_ends [of w] show False by (simp add: drive_direct_def plain_def code_def)
    qed
  qed
  moreover have "strip_back ws_seqs (drive_direct fid) = drive_direct (strip_back ws_seqs fid)"
    unfolding drive_direct_def by (rule strip_back_append) (simp_all add: plain_def code_def)
  ultimately show ?thesis by (simp add: trim_def)
qed

subsection \<open>Percent-escapes in a text\<close>

lemma esc_head_simps:
  "esc_head [] = False" "esc_head [a] = False"
  "esc_head (a # b # s) = (hex_val a \<noteq> None \<and> hex_val b \<noteq> None)"
  by (simp_all add: esc_head_def)

lemma has_escape_Cons: "has_escape (c # r) = ((c = CHR ''%'' \<and> esc_head r) \<or> has_escape r)"
proof (cases r)
  case Nil
  then show ?thesis by (simp add: esc_head_simps)
next
  case (Cons a t)
  then show ?thesis by (cases t) (simp_all add: esc_head_simps)
qed

lemma pct_decode_lit:
  "\<not> (c = CHR ''%'' \<and> esc_head r) \<Longrightarrow> pct_decode (c # r) = c # pct_decode r"
proof (cases r)
  case Nil
  then show ?thesis by simp
next
  case (Cons a t)
  assume h: "\<not> (c = CHR ''%'' \<and> esc_head r)"
  show ?thesis
  proof (cases t)
    case Nil
    with Cons show ?thesis by simp
  next
    case (Cons b s)
    with \<open>r = a # t\<close> h show ?thesis
      by (auto simp: esc_head_simps split: option.splits)
  qed
qed

lemma pct_decode_esc:
  "esc_head r \<Longrightarrow> \<exists>d. pct_decode (CHR ''%'' # r) = d # pct_decode (drop 2 r)"
proof (cases r)
  case Nil
  assume "esc_head r"
  with Nil show ?thesis by (simp add: esc_head_simps)
next
  case (Cons a t)
  assume h: "esc_head r"
  show ?thesis
  proof (cases t)
    case Nil
    with Cons h show ?thesis by (simp add: esc_head_simps)
  next
    case (Cons b s)
    with \<open>r = a # t\<close> h show ?thesis
      by (auto simp: esc_head_simps split: option.splits)
  qed
qed

lemma pct_decode_no_escape: "\<not> has_escape s \<Longrightarrow> pct_decode s = s"
  by (induction s) (simp_all add: has_escape_Cons pct_decode_lit)

lemma pct_decode_length:
  "length (pct_decode s) \<le> length s \<and> (has_escape s \<longrightarrow> length (pct_decode s) < length s)"
proof (induction s rule: length_induct)
  case (1 s)
  show ?case
  proof (cases s)
    case Nil
    then show ?thesis by simp
  next
    case (Cons c r)
    show ?thesis
    proof (cases "c = CHR ''%'' \<and> esc_head r")
      case True
      then obtain d where d: "pct_decode (c # r) = d # pct_decode (drop 2 r)"
        using pct_decode_esc [of r] by auto
      from True obtain a b t where r: "r = a # b # t"
        by (cases r; cases "tl r") (auto simp: esc_head_simps)
      have "length (pct_decode t) \<le> length t"
        using 1 Cons r by simp
      with d r Cons show ?thesis by simp
    next
      case False
      then have d: "pct_decode (c # r) = c # pct_decode r" by (rule pct_decode_lit)
      have "length (pct_decode r) \<le> length r \<and> (has_escape r \<longrightarrow> length (pct_decode r) < length r)"
        using 1 Cons by simp
      with d False Cons show ?thesis by (auto simp: has_escape_Cons)
    qed
  qed
qed

lemma pct_decode_empty: "(pct_decode s = []) = (s = [])"
proof (cases s)
  case Nil
  then show ?thesis by simp
next
  case (Cons c r)
  show ?thesis
  proof (cases "c = CHR ''%'' \<and> esc_head r")
    case True
    then show ?thesis using pct_decode_esc [of r] Cons by auto
  next
    case False
    then show ?thesis using pct_decode_lit [of c r] Cons by simp
  qed
qed

lemma form_decode_length: "length (form_decode s) \<le> length s"
  using pct_decode_length [of "map (\<lambda>c. if c = CHR ''+'' then CHR '' '' else c) s"]
  by (simp add: form_decode_def)

lemma form_decode_empty: "(form_decode s = []) = (s = [])"
  by (simp add: form_decode_def pct_decode_empty)

lemma form_decode_fixed: "(form_decode s = s) = (CHR ''+'' \<notin> set s \<and> \<not> has_escape s)"
proof
  let ?g = "map (\<lambda>c. if c = CHR ''+'' then CHR '' '' else c) s"
  assume a: "form_decode s = s"
  then have "length (pct_decode ?g) = length ?g" by (simp add: form_decode_def)
  then have ne: "\<not> has_escape ?g" using pct_decode_length [of ?g] by auto
  then have "pct_decode ?g = ?g" by (rule pct_decode_no_escape)
  with a have g: "?g = s" by (simp add: form_decode_def)
  have "CHR ''+'' \<notin> set ?g" by auto
  with g ne show "CHR ''+'' \<notin> set s \<and> \<not> has_escape s" by simp
next
  assume a: "CHR ''+'' \<notin> set s \<and> \<not> has_escape s"
  then have "map (\<lambda>c. if c = CHR ''+'' then CHR '' '' else c) s = s"
    by (intro map_idI) auto
  with a show "form_decode s = s" by (simp add: form_decode_def pct_decode_no_escape)
qed

lemma plus_space_pct: "map plus_space (pct c) = pct c"
proof (rule map_idI)
  fix x assume "x \<in> set (pct c)"
  then have "x \<noteq> CHR ''+''" using pct_chars escape_not_plus by blast
  then show "plus_space x = x" by (simp add: plus_space_def)
qed

lemma form_decode_plus_space: "form_decode s = pct_decode (map plus_space s)"
  by (simp add: form_decode_def plus_space_def [abs_def])

lemma hex_val_percent: "hex_val CHR ''%'' = None"
  by (simp add: hex_val_def code_def)

lemma hex_val_space: "hex_val CHR '' '' = None"
  by (simp add: hex_val_def code_def)

lemma hex_plus_space: "hex_val (plus_space c) \<noteq> None \<Longrightarrow> plus_space c = c"
  by (auto simp: plus_space_def hex_val_space)

lemma esc_head_first: "hex_val x = None \<Longrightarrow> \<not> esc_head (x # t)"
  by (cases t) (simp_all add: esc_head_simps)

lemma esc_head_second: "hex_val y = None \<Longrightarrow> \<not> esc_head (x # y # t)"
  by (simp add: esc_head_simps)

lemma esc_head_pct: "\<not> esc_head (pct c @ r)"
  by (simp add: pct_def esc_head_simps hex_val_percent)

lemma esc_head_Cons_pct: "\<not> esc_head (x # pct c @ r)"
  by (simp add: pct_def esc_head_simps hex_val_percent)

lemma unreserved_plus_space: "unreserved P \<Longrightarrow> P c \<Longrightarrow> plus_space c = c"
  by (simp add: unreserved_def plus_space_def)

lemma esc_head_encode:
  assumes "unreserved P"
  shows "esc_head (map plus_space (pct_encode P r)) = esc_head (map plus_space r)"
proof (cases r)
  case Nil
  then show ?thesis by (simp add: pct_encode_Nil)
next
  case (Cons a t)
  show ?thesis
  proof (cases "P a")
    case True
    then have "hex_val (plus_space a) = None"
      using assms unreserved_plus_space [OF assms True] by (simp add: unreserved_def)
    then have "\<not> esc_head (map plus_space (a # t))" by (simp add: esc_head_first)
    moreover have "\<not> esc_head (map plus_space (pct_encode P (a # t)))"
      using True by (simp add: pct_encode_Cons plus_space_pct esc_head_pct)
    ultimately show ?thesis using Cons by simp
  next
    case na: False
    show ?thesis
    proof (cases t)
      case Nil
      with Cons na show ?thesis by (simp add: pct_encode_Cons pct_encode_Nil)
    next
      case (Cons b s)
      show ?thesis
      proof (cases "P b")
        case True
        then have "hex_val (plus_space b) = None"
          using assms unreserved_plus_space [OF assms True] by (simp add: unreserved_def)
        then have "\<not> esc_head (map plus_space (a # b # s))" by (simp add: esc_head_second)
        moreover have "\<not> esc_head (map plus_space (pct_encode P (a # b # s)))"
          using na True by (simp add: pct_encode_Cons plus_space_pct esc_head_Cons_pct)
        ultimately show ?thesis using Cons \<open>r = a # t\<close> by simp
      next
        case False
        with na Cons \<open>r = a # t\<close> show ?thesis
          by (simp add: pct_encode_Cons esc_head_simps)
      qed
    qed
  qed
qed

lemma form_decode_encoded:
  assumes "unreserved P"
  shows "form_decode (pct_encode P w) = form_decode w"
  unfolding form_decode_plus_space
proof (induction w rule: length_induct)
  case (1 w)
  show ?case
  proof (cases w)
    case Nil
    then show ?thesis by (simp add: pct_encode_Nil)
  next
    case (Cons c r)
    have ih: "pct_decode (map plus_space (pct_encode P r)) = pct_decode (map plus_space r)"
      using 1 Cons by simp
    show ?thesis
    proof (cases "P c")
      case True
      then have c: "plus_space c = c" and np: "c \<noteq> CHR ''%''"
        using assms unreserved_plus_space [OF assms True] by (simp_all add: unreserved_def)
      have "pct_decode (map plus_space (pct_encode P (c # r)))
          = c # pct_decode (map plus_space (pct_encode P r))"
        using True by (simp add: pct_encode_Cons plus_space_pct pct_decode_pct)
      moreover have "pct_decode (map plus_space (c # r)) = c # pct_decode (map plus_space r)"
        using c np by (simp add: pct_decode_lit)
      ultimately show ?thesis using ih Cons by simp
    next
      case nc: False
      show ?thesis
      proof (cases "plus_space c = CHR ''%'' \<and> esc_head (map plus_space r)")
        case True
        then obtain a b t where r: "r = a # b # t"
          by (cases r; cases "tl r") (auto simp: esc_head_simps)
        with True have ha: "hex_val (plus_space a) \<noteq> None" and hb: "hex_val (plus_space b) \<noteq> None"
          by (simp_all add: esc_head_simps)
        have a: "plus_space a = a" using ha by (rule hex_plus_space)
        have b: "plus_space b = b" using hb by (rule hex_plus_space)
        have "\<not> P a" using assms ha a by (auto simp: unreserved_def)
        moreover have "\<not> P b" using assms hb b by (auto simp: unreserved_def)
        ultimately have e: "pct_encode P (c # r) = c # a # b # pct_encode P t"
          using nc r by (simp add: pct_encode_Cons)
        have "pct_decode (map plus_space (pct_encode P t)) = pct_decode (map plus_space t)"
          using 1 Cons r by simp
        with True e r a b ha hb Cons show ?thesis
          by (auto split: option.splits)
      next
        case False
        then have "\<not> (plus_space c = CHR ''%''
            \<and> esc_head (map plus_space (pct_encode P r)))"
          by (simp add: esc_head_encode [OF assms])
        then have "pct_decode (plus_space c # map plus_space (pct_encode P r))
            = plus_space c # pct_decode (map plus_space (pct_encode P r))"
          by (rule pct_decode_lit)
        moreover have "pct_decode (plus_space c # map plus_space r)
            = plus_space c # pct_decode (map plus_space r)"
          using False by (rule pct_decode_lit)
        ultimately show ?thesis using nc ih Cons by (simp add: pct_encode_Cons)
      qed
    qed
  qed
qed

lemma unreserved_query: "unreserved special_query_set"
  unfolding unreserved_def
proof (intro allI impI)
  fix c assume "special_query_set c"
  then show "c \<noteq> CHR ''+'' \<and> c \<noteq> CHR ''%'' \<and> hex_val c = None"
    by (auto simp: special_query_set_code hex_val_def char_eq_code [of c] code_def)
qed

lemma pct_encode_length: "length s \<le> length (pct_encode P s)"
  by (induction s) (simp_all add: pct_encode_Nil pct_encode_Cons pct_def)

lemma pct_encode_same_length:
  "length (pct_encode P s) = length s \<Longrightarrow> \<forall>c \<in> set s. \<not> P c"
proof (induction s)
  case Nil
  show ?case by simp
next
  case (Cons c s)
  have l: "length s \<le> length (pct_encode P s)" by (rule pct_encode_length)
  show ?case
  proof (cases "P c")
    case True
    with Cons.prems l show ?thesis by (simp add: pct_encode_Cons pct_def)
  next
    case False
    with Cons show ?thesis by (simp add: pct_encode_Cons)
  qed
qed

lemma takeWhile_encode:
  assumes "\<not> P d" and "\<not> escape_char d"
  shows "takeWhile (\<lambda>c. c \<noteq> d) (pct_encode P s) = pct_encode P (takeWhile (\<lambda>c. c \<noteq> d) s)"
proof (induction s)
  case Nil
  show ?case by (simp add: pct_encode_Nil)
next
  case (Cons c s)
  show ?case
  proof (cases "P c")
    case True
    have "\<forall>x \<in> set (pct c). x \<noteq> d" using pct_chars assms(2) by blast
    then have "takeWhile (\<lambda>c. c \<noteq> d) (pct c @ pct_encode P s)
        = pct c @ takeWhile (\<lambda>c. c \<noteq> d) (pct_encode P s)"
      by (simp add: takeWhile_append2)
    moreover from True assms(1) have "c \<noteq> d" by auto
    ultimately show ?thesis using True Cons by (simp add: pct_encode_Cons)
  next
    case False
    with Cons show ?thesis by (simp add: pct_encode_Cons pct_encode_Nil)
  qed
qed

subsection \<open>What the parser keeps of the end of its input\<close>

lemma ctail_length: "length (ctail s) \<le> length s"
proof -
  have "length (ctail s) \<le> length (dropWhile c0_or_space (rev s))"
    unfolding ctail_def by (simp only: length_rev [symmetric, of "dropWhile c0_or_space (rev s)"] length_filter_le)
  also have "\<dots> \<le> length (rev s)" by (rule length_dropWhile_le)
  finally show ?thesis by simp
qed

lemma dropWhile_full:
  assumes "length (dropWhile P xs) = length xs"
  shows "dropWhile P xs = xs"
proof (cases xs)
  case Nil
  then show ?thesis by simp
next
  case (Cons x r)
  show ?thesis
  proof (cases "P x")
    case True
    have "length (dropWhile P r) \<le> length r" by (rule length_dropWhile_le)
    with True Cons assms show ?thesis by simp
  next
    case False
    with Cons show ?thesis by simp
  qed
qed

lemma dropWhile_fixed_hd:
  assumes "dropWhile P xs = xs" and "xs \<noteq> []"
  shows "\<not> P (hd xs)"
proof
  assume p: "P (hd xs)"
  from assms(2) obtain x r where xs: "xs = x # r" by (cases xs) auto
  with p assms(1) have "dropWhile P r = x # r" by simp
  moreover have "length (dropWhile P r) \<le> length r" by (rule length_dropWhile_le)
  ultimately show False by simp
qed

lemma filter_full: "length (filter Q xs) = length xs \<Longrightarrow> \<forall>x \<in> set xs. Q x"
proof (induction xs)
  case Nil
  show ?case by simp
next
  case (Cons x xs)
  have l: "length (filter Q xs) \<le> length xs" by (rule length_filter_le)
  show ?case
  proof (cases "Q x")
    case True
    with Cons.prems have "length (filter Q xs) = length xs" by simp
    then have "\<forall>x \<in> set xs. Q x" by (rule Cons.IH)
    with True show ?thesis by simp
  next
    case False
    with Cons.prems have "length (filter Q xs) = Suc (length xs)" by simp
    with l show ?thesis by simp
  qed
qed

lemma ctail_full:
  assumes "length (ctail s) = length s"
  shows "\<forall>c \<in> set s. \<not> tab_or_newline c" and "s \<noteq> [] \<longrightarrow> \<not> c0_or_space (last s)"
    and "ctail s = s"
proof -
  let ?d = "dropWhile c0_or_space (rev s)"
  have 1: "length (ctail s) \<le> length ?d"
    unfolding ctail_def by (simp only: length_rev [symmetric, of ?d] length_filter_le)
  have 2: "length ?d \<le> length (rev s)" by (rule length_dropWhile_le)
  from 1 2 assms have "length ?d = length (rev s)" by simp
  then have d: "?d = rev s" by (rule dropWhile_full)
  show 3: "s \<noteq> [] \<longrightarrow> \<not> c0_or_space (last s)"
  proof
    assume "s \<noteq> []"
    then have "rev s \<noteq> []" by simp
    with d have "\<not> c0_or_space (hd (rev s))" by (rule dropWhile_fixed_hd)
    with \<open>s \<noteq> []\<close> show "\<not> c0_or_space (last s)" by (simp add: hd_rev)
  qed
  from d assms have "length (filter (\<lambda>c. \<not> tab_or_newline c) s) = length s"
    by (simp add: ctail_def)
  then show 4: "\<forall>c \<in> set s. \<not> tab_or_newline c" by (rule filter_full)
  from d 4 show "ctail s = s" by (simp add: ctail_def filter_id_conv)
qed

lemma ctail_id:
  assumes "\<forall>c \<in> set s. \<not> tab_or_newline c" and "s \<noteq> [] \<longrightarrow> \<not> c0_or_space (last s)"
  shows "ctail s = s"
proof -
  have "dropWhile c0_or_space (rev s) = rev s"
    using assms(2) by (cases "rev s") (auto simp: hd_rev [symmetric])
  with assms(1) show ?thesis by (simp add: ctail_def filter_id_conv)
qed

lemma dropWhile_append_stop:
  assumes "b \<noteq> []" and "\<not> P (hd b)"
  shows "dropWhile P (a @ b) = dropWhile P a @ b"
proof -
  have "dropWhile P b = b" using assms by (cases b) simp_all
  then show ?thesis by (simp add: dropWhile_append)
qed

lemma clean_append:
  assumes "a \<noteq> []" and "\<forall>c \<in> set a. plain c"
  shows "clean (a @ g) = a @ ctail g"
proof -
  from assms have h: "\<not> c0_or_space (hd a)" and l: "\<not> c0_or_space (last a)"
    using plain_not_c0 by (simp_all add: hd_in_set)
  have n: "\<forall>c \<in> set a. \<not> tab_or_newline c" using assms(2) plain_not_c0 by blast
  have "dropWhile c0_or_space (a @ g) = a @ g" using assms(1) h by (cases a) simp_all
  moreover have "dropWhile c0_or_space (rev g @ rev a) = dropWhile c0_or_space (rev g) @ rev a"
    using assms(1) l by (intro dropWhile_append_stop) (simp_all add: hd_rev)
  moreover have "filter (\<lambda>c. \<not> tab_or_newline c) a = a" using n by (simp add: filter_id_conv)
  ultimately show ?thesis by (simp add: clean_def ctail_def)
qed

lemma drive_prefix_plain: "list_all plain ''https://drive.google.com/uc?export=download&id=''"
  by (simp add: plain_def code_def)

lemma clean_drive: "clean (drive_direct g) = drive_direct (ctail g)"
  unfolding drive_direct_def
  using drive_prefix_plain by (intro clean_append) (simp_all add: list_all_iff)

lemma takeWhile_full: "length (takeWhile P xs) = length xs \<Longrightarrow> \<forall>x \<in> set xs. P x"
proof (induction xs)
  case Nil
  show ?case by simp
next
  case (Cons x xs)
  show ?case
  proof (cases "P x")
    case True
    with Cons.prems have "length (takeWhile P xs) = length xs" by simp
    then have "\<forall>x \<in> set xs. P x" by (rule Cons.IH)
    with True show ?thesis by simp
  next
    case False
    with Cons.prems show ?thesis by simp
  qed
qed

lemma read_full:
  fixes R :: "char \<Rightarrow> bool"
  assumes "form_decode (takeWhile R (ctail (strip_back ws_seqs fid))) = fid"
  shows "strip_back ws_seqs fid = fid" and "ctail fid = fid"
    and "\<forall>c \<in> set fid. R c \<and> \<not> tab_or_newline c"
    and "fid \<noteq> [] \<longrightarrow> \<not> c0_or_space (last fid)"
    and "form_decode fid = fid"
proof -
  let ?g = "strip_back ws_seqs fid"
  let ?t = "ctail ?g"
  let ?a = "takeWhile R ?t"
  have 1: "length (form_decode ?a) \<le> length ?a" by (rule form_decode_length)
  have 2: "length ?a \<le> length ?t" by (rule length_takeWhile_le)
  have 3: "length ?t \<le> length ?g" by (rule ctail_length)
  have 4: "length ?g \<le> length fid" by (rule strip_back_length)
  from assms have 0: "length (form_decode ?a) = length fid" by simp
  from 0 1 2 3 4 have "length ?g = length fid" by simp
  then show g: "strip_back ws_seqs fid = fid" by (rule strip_back_full)
  from 0 1 2 3 4 have "length (ctail fid) = length fid" by (simp add: g)
  note c = ctail_full [OF this]
  show t: "ctail fid = fid" by (rule c(3))
  show "fid \<noteq> [] \<longrightarrow> \<not> c0_or_space (last fid)" by (rule c(2))
  from 0 1 2 3 4 have "length (takeWhile R fid) = length fid" by (simp add: g t)
  then have r: "\<forall>c \<in> set fid. R c" by (rule takeWhile_full)
  with c(1) show "\<forall>c \<in> set fid. R c \<and> \<not> tab_or_newline c" by simp
  from r have "takeWhile R fid = fid" by (simp add: takeWhile_eq_all_conv)
  with assms show "form_decode fid = fid" by (simp add: g t)
qed

subsection \<open>The serialisation of a Drive link\<close>

lemma escape_plain: "escape_char x \<Longrightarrow> plain x"
  by (auto simp: escape_char_def plain_def)

lemma hash_plain: "plain CHR ''#''"
  by (simp add: plain_def code_def)

lemma serial_plain: "x \<in> set (serial t) \<Longrightarrow> plain x"
proof -
  assume "x \<in> set (serial t)"
  then consider "x \<in> set (pct_encode special_query_set (takeWhile (\<lambda>c. c \<noteq> CHR ''#'') t))"
    | "x = CHR ''#''"
    | r where "x \<in> set (pct_encode fragment_set r)"
    by (auto simp: serial_def split: list.splits)
  then show ?thesis
  proof cases
    case 1
    then show ?thesis
      using pct_encode_chars not_query_plain escape_plain by blast
  next
    case 2
    then show ?thesis by (simp add: hash_plain)
  next
    case 3
    then show ?thesis
      using pct_encode_chars not_fragment_plain escape_plain by blast
  qed
qed

lemma plain_strip_back:
  assumes "\<forall>x \<in> set s. plain x"
  shows "strip_back ws_seqs s = s"
proof -
  have "\<not> suffix w s" if "w \<in> set ws_seqs" for w
  proof
    assume "suffix w s"
    then have "set w \<subseteq> set s" by (rule set_mono_suffix)
    moreover have "w \<noteq> []" and "\<not> plain (hd w)" using ws_ends [OF that] by simp_all
    ultimately show False using assms by (cases w) auto
  qed
  then show ?thesis by (auto simp: strip_back_fixed list_ex_iff)
qed

lemma plain_ctail: "\<forall>x \<in> set s. plain x \<Longrightarrow> ctail s = s"
  using plain_not_c0 by (intro ctail_id) auto

lemma plain_kept: "\<forall>x \<in> set s. plain x \<Longrightarrow> ctail (strip_back ws_seqs s) = s"
  by (simp add: plain_strip_back plain_ctail)

lemma serial_fixed:
  "(serial s = s) =
     (list_all (\<lambda>x. \<not> special_query_set x) (takeWhile (\<lambda>x. x \<noteq> CHR ''#'') s)
      \<and> list_all (\<lambda>x. \<not> fragment_set x) (drop 1 (dropWhile (\<lambda>x. x \<noteq> CHR ''#'') s)))"
proof -
  define a where "a = takeWhile (\<lambda>x. x \<noteq> CHR ''#'') s"
  define d where "d = dropWhile (\<lambda>x. x \<noteq> CHR ''#'') s"
  define f where "f = (case d of [] \<Rightarrow> [] | c # r \<Rightarrow> CHR ''#'' # pct_encode fragment_set r)"
  have s: "s = a @ d" by (simp add: a_def d_def)
  have ser: "serial s = pct_encode special_query_set a @ f"
    by (simp add: serial_def a_def d_def f_def)
  have hd: "d = CHR ''#'' # drop 1 d" if "d \<noteq> []"
    using that hd_dropWhile [of "\<lambda>x. x \<noteq> CHR ''#''" s] by (cases d) (auto simp: d_def)
  have la: "length a \<le> length (pct_encode special_query_set a)" by (rule pct_encode_length)
  have lf: "length d \<le> length f"
    using pct_encode_length [of "drop 1 d" fragment_set] by (cases d) (simp_all add: f_def)
  show ?thesis
  proof
    assume "serial s = s"
    then have e: "pct_encode special_query_set a @ f = a @ d" using ser s by simp
    then have "length (pct_encode special_query_set a) + length f = length a + length d"
      by (metis length_append)
    with la lf have 1: "length (pct_encode special_query_set a) = length a"
      and 2: "length f = length d" by simp_all
    from 1 have "\<forall>c \<in> set a. \<not> special_query_set c" by (rule pct_encode_same_length)
    moreover have "\<forall>c \<in> set (drop 1 d). \<not> fragment_set c"
    proof (cases d)
      case Nil
      then show ?thesis by simp
    next
      case (Cons c r)
      with 2 have "length (pct_encode fragment_set r) = length r" by (simp add: f_def)
      then have "\<forall>c \<in> set r. \<not> fragment_set c" by (rule pct_encode_same_length)
      with Cons show ?thesis by simp
    qed
    ultimately show "list_all (\<lambda>x. \<not> special_query_set x) (takeWhile (\<lambda>x. x \<noteq> CHR ''#'') s)
      \<and> list_all (\<lambda>x. \<not> fragment_set x) (drop 1 (dropWhile (\<lambda>x. x \<noteq> CHR ''#'') s))"
      by (simp add: list_all_iff a_def d_def)
  next
    assume "list_all (\<lambda>x. \<not> special_query_set x) (takeWhile (\<lambda>x. x \<noteq> CHR ''#'') s)
      \<and> list_all (\<lambda>x. \<not> fragment_set x) (drop 1 (dropWhile (\<lambda>x. x \<noteq> CHR ''#'') s))"
    then have 1: "\<forall>c \<in> set a. \<not> special_query_set c"
      and 2: "\<forall>c \<in> set (drop 1 d). \<not> fragment_set c"
      by (simp_all add: list_all_iff a_def d_def)
    have "pct_encode special_query_set a = a" using 1 by (rule pct_encode_id)
    moreover have "f = d"
    proof (cases d)
      case Nil
      then show ?thesis by (simp add: f_def)
    next
      case (Cons c r)
      then have "c = CHR ''#''" using hd by simp
      moreover have "pct_encode fragment_set r = r"
        using 2 Cons by (intro pct_encode_id) simp
      ultimately show ?thesis using Cons by (simp add: f_def)
    qed
    ultimately show "serial s = s" using ser s by simp
  qed
qed

subsection \<open>Safe ids\<close>

lemma empty_param_Cons: "empty_param (c # cs) = (c = CHR ''&'' \<or> c = CHR ''#'')"
  by (simp add: empty_param_def)

lemma safe_param:
  assumes "id_safe fid" and "empty_param fid"
  shows "serial fid = fid" and "\<forall>x \<in> set fid. plain x"
    and "takeWhile (\<lambda>c. c \<noteq> CHR ''&'' \<and> c \<noteq> CHR ''#'') fid = []"
proof -
  show s: "serial fid = fid"
    unfolding serial_fixed using assms by (simp add: id_safe_def)
  show "\<forall>x \<in> set fid. plain x" using serial_plain [of _ fid] s by simp
  show "takeWhile (\<lambda>c. c \<noteq> CHR ''&'' \<and> c \<noteq> CHR ''#'') fid = []"
    using assms(2) by (cases fid) (auto simp: empty_param_Cons)
qed

lemma safe_value:
  assumes "id_safe fid" and "\<not> empty_param fid"
  shows "fid \<noteq> []" and "strip_back ws_seqs fid = fid" and "ctail fid = fid"
    and "takeWhile (\<lambda>c. c \<noteq> CHR ''&'' \<and> c \<noteq> CHR ''#'') fid = fid"
    and "form_decode fid = fid"
proof -
  from assms have a: "\<forall>x \<in> set fid. x \<notin> set ''#&+'' \<and> \<not> tab_or_newline x"
    and e: "\<not> has_escape fid" and b: "\<not> ends_blank fid"
    by (simp_all add: id_safe_def list_all_iff)
  show "fid \<noteq> []" using assms(2) by (auto simp: empty_param_def)
  show "strip_back ws_seqs fid = fid"
    using b by (simp add: ends_blank_def strip_back_fixed)
  show "ctail fid = fid"
    using a b by (intro ctail_id) (auto simp: ends_blank_def)
  show "takeWhile (\<lambda>c. c \<noteq> CHR ''&'' \<and> c \<noteq> CHR ''#'') fid = fid"
    using a by (auto simp: takeWhile_eq_all_conv)
  have "CHR ''+'' \<notin> set fid \<and> \<not> has_escape fid"
    using a e by auto
  then show "form_decode fid = fid"
    using form_decode_fixed [of fid] by blast
qed

lemma safe_trimmed:
  assumes "id_safe fid"
  shows "strip_back ws_seqs fid = fid"
proof (cases "empty_param fid")
  case True
  with assms have "\<forall>x \<in> set fid. plain x" by (rule safe_param(2))
  then show ?thesis by (rule plain_strip_back)
next
  case False
  with assms show ?thesis by (rule safe_value(2))
qed

subsection \<open>The normaliser on a parsed URL\<close>

lemma normalize_parsed:
  assumes "trim x \<noteq> []" and "\<not> is_relative (trim x)" and "is_http (trim x)"
    and "new_URL U (trim x) = Some url"
  shows "normalizeMediaUrl U x = rewrite_url U url"
  unfolding normalizeMediaUrl_def rewrite_url_def Let_def
  by (simp only: assms if_False simp_thms option.case)

lemma is_http_nonempty: "is_http s \<Longrightarrow> s \<noteq> []"
  by (auto simp: is_http_def)

lemma drive_host: "\<not> str_includes ''drive.google.com'' ''dropbox.com''"
  "str_includes ''drive.google.com'' ''drive.google.com''"
  by simp_all

lemma normalize_stable:
  assumes "url_stable U u"
  shows "normalizeMediaUrl U (toString U u) = rewrite_url U u"
proof -
  from assms have t: "trim (toString U u) = toString U u"
    and h: "is_http (toString U u)" and r: "\<not> is_relative (toString U u)"
    and p: "new_URL U (toString U u) = Some u"
    by (simp_all add: url_stable_def)
  show ?thesis
    by (rule normalize_parsed) (simp_all add: t h r p is_http_nonempty)
qed

lemma link_facts:
  "drive_direct g \<noteq> []" "is_http (drive_direct g)" "\<not> is_relative (drive_direct g)"
  by (simp_all add: drive_direct_def is_http_def is_relative_def lower_def)

lemma laws_parsed:
  assumes "url_laws U" and "is_http s" and "new_URL U s = Some u"
  shows "url_stable U u" and "url_stable U (sp_set U u k v)"
proof -
  from assms(1) have "\<forall>s u. is_http s \<and> new_URL U s = Some u \<longrightarrow>
          url_stable U u \<and> (\<forall>k v. url_stable U (sp_set U u k v))"
    unfolding url_laws_def by (rule conjunct1)
  then have "url_stable U u \<and> (\<forall>k v. url_stable U (sp_set U u k v))"
    using assms(2,3) by (elim allE [of _ s] allE [of _ u] impE) (rule conjI)
  then show "url_stable U u" and "url_stable U (sp_set U u k v)" by simp_all
qed

lemma laws_set:
  assumes "url_laws U"
  shows "hostname U (sp_set U u k v) = hostname U u"
    and "sp_has U (sp_set U u k v) k' = (k' = k \<or> sp_has U u k')"
    and "sp_set U (sp_set U u k v) k v = sp_set U u k v"
proof -
  note L = assms [unfolded url_laws_def]
  show "hostname U (sp_set U u k v) = hostname U u"
    by (rule L [THEN conjunct2, THEN conjunct1, rule_format])
  show "sp_has U (sp_set U u k v) k' = (k' = k \<or> sp_has U u k')"
    by (rule L [THEN conjunct2, THEN conjunct2, THEN conjunct1, rule_format])
  show "sp_set U (sp_set U u k v) k v = sp_set U u k v"
    by (rule L [THEN conjunct2, THEN conjunct2, THEN conjunct2, THEN conjunct1, rule_format])
qed

lemma laws_drive:
  assumes "url_laws U" and "id_safe fid"
  shows "\<exists>u. new_URL U (drive_direct fid) = Some u
              \<and> hostname U u = ''drive.google.com''
              \<and> path_id (pathname U u) = None
              \<and> (if empty_param fid
                  then sp_get U u ''id'' = Some [] \<and> toString U u = drive_direct fid
                  else sp_get U u ''id'' = Some fid)"
proof -
  from assms(1) have "\<forall>fid. id_safe fid \<longrightarrow>
           (\<exists>u. new_URL U (drive_direct fid) = Some u
              \<and> hostname U u = ''drive.google.com''
              \<and> path_id (pathname U u) = None
              \<and> (if empty_param fid
                  then sp_get U u ''id'' = Some [] \<and> toString U u = drive_direct fid
                  else sp_get U u ''id'' = Some fid))"
    unfolding url_laws_def by (elim conjE)
  then show ?thesis using assms(2) by (elim allE [of _ fid] impE)
qed

lemma normalize_drive_direct:
  assumes laws: "url_laws U" and safe: "id_safe fid"
  shows "normalizeMediaUrl U (drive_direct fid) = drive_direct fid"
proof -
  from laws_drive [OF assms] obtain u where p: "new_URL U (drive_direct fid) = Some u"
    and h: "hostname U u = ''drive.google.com''"
    and pi: "path_id (pathname U u) = None"
    and g: "if empty_param fid
            then sp_get U u ''id'' = Some [] \<and> toString U u = drive_direct fid
            else sp_get U u ''id'' = Some fid"
    by (elim exE conjE)
  have t: "trim (drive_direct fid) = drive_direct fid"
    by (simp add: trim_drive safe_trimmed [OF safe])
  have "normalizeMediaUrl U (drive_direct fid) = rewrite_url U u"
    using p by (intro normalize_parsed) (simp_all add: t link_facts)
  also have "\<dots> = drive_direct fid"
  proof (cases "empty_param fid")
    case True
    with g have "sp_get U u ''id'' = Some []" and "toString U u = drive_direct fid"
      by simp_all
    then show ?thesis
      unfolding rewrite_url_def Let_def h pi using drive_host by simp
  next
    case False
    with g have "sp_get U u ''id'' = Some fid" by simp
    moreover have "fid \<noteq> []" using safe False by (rule safe_value(1))
    ultimately show ?thesis
      unfolding rewrite_url_def Let_def h pi using drive_host by simp
  qed
  finally show ?thesis .
qed

lemma dl_raw: "''dl'' \<noteq> ''raw''"
  by simp

lemma rewrite_fixed:
  assumes laws: "url_laws U" and hs: "is_http s" and p: "new_URL U s = Some url"
    and safe: "\<forall>fid. rewrite_url U url = drive_direct fid \<longrightarrow> id_safe fid"
  shows "normalizeMediaUrl U (rewrite_url U url) = rewrite_url U url"
proof -
  note st = laws_parsed(1) [OF laws hs p]
  note sts = laws_parsed(2) [OF laws hs p]
  note hostset = laws_set(1) [OF laws]
  note hasset = laws_set(2) [OF laws]
  note setset = laws_set(3) [OF laws]
  show ?thesis
  proof (cases "str_includes (hostname U url) ''dropbox.com''")
    case db: True
    show ?thesis
    proof (cases "sp_has U url ''dl''")
      case True
      have r: "rewrite_url U url = toString U (sp_set U url ''dl'' ''1'')"
        unfolding rewrite_url_def Let_def by (simp only: db True if_True)
      have "normalizeMediaUrl U (toString U (sp_set U url ''dl'' ''1''))
          = rewrite_url U (sp_set U url ''dl'' ''1'')"
        by (rule normalize_stable) (rule sts)
      also have "\<dots> = toString U (sp_set U url ''dl'' ''1'')"
        unfolding rewrite_url_def Let_def hostset hasset setset
        by (simp only: db simp_thms if_True)
      finally show ?thesis by (simp only: r)
    next
      case nodl: False
      show ?thesis
      proof (cases "sp_has U url ''raw''")
        case True
        have r: "rewrite_url U url = toString U url"
          unfolding rewrite_url_def Let_def
          by (simp only: db nodl True if_True if_False simp_thms)
        show ?thesis unfolding r using normalize_stable [OF st] r by (simp only:)
      next
        case False
        have r: "rewrite_url U url = toString U (sp_set U url ''raw'' ''1'')"
          unfolding rewrite_url_def Let_def
          by (simp only: db nodl False if_True if_False simp_thms)
        have "normalizeMediaUrl U (toString U (sp_set U url ''raw'' ''1''))
            = rewrite_url U (sp_set U url ''raw'' ''1'')"
          by (rule normalize_stable) (rule sts)
        also have "\<dots> = toString U (sp_set U url ''raw'' ''1'')"
          unfolding rewrite_url_def Let_def hostset hasset
          by (simp only: db nodl dl_raw simp_thms if_True if_False)
        finally show ?thesis by (simp only: r)
      qed
    qed
  next
    case nodb: False
    define fid where "fid = (case path_id (pathname U url) of
                         Some m \<Rightarrow> m
                       | None \<Rightarrow>
                           (case sp_get U url ''id'' of
                              Some v \<Rightarrow> v
                            | None \<Rightarrow> []))"
    have rw: "rewrite_url U url =
        (if str_includes (hostname U url) ''drive.google.com''
         then (if fid \<noteq> [] then drive_direct fid else toString U url)
         else toString U url)"
      unfolding rewrite_url_def Let_def fid_def by (simp only: nodb if_False)
    show ?thesis
    proof (cases "str_includes (hostname U url) ''drive.google.com'' \<and> fid \<noteq> []")
      case True
      then have r: "rewrite_url U url = drive_direct fid" and ne: "fid \<noteq> []"
        unfolding rw by simp_all
      from safe r have "id_safe fid" by blast
      with laws show ?thesis unfolding r by (rule normalize_drive_direct)
    next
      case False
      then have r: "rewrite_url U url = toString U url"
        unfolding rw by auto
      show ?thesis unfolding r using normalize_stable [OF st] r by (simp only:)
    qed
  qed
qed

lemma normalize_if_safe:
  assumes "url_laws U"
    and "\<forall>fid. normalizeMediaUrl U x = drive_direct fid \<longrightarrow> id_safe fid"
  shows "normalizeMediaUrl U (normalizeMediaUrl U x) = normalizeMediaUrl U x"
proof (cases "trim x = []")
  case True
  then have "normalizeMediaUrl U x = []"
    unfolding normalizeMediaUrl_def Let_def by (simp only: simp_thms if_True)
  moreover have "normalizeMediaUrl U [] = []"
    unfolding normalizeMediaUrl_def Let_def by (simp only: trim_Nil simp_thms if_True)
  ultimately show ?thesis by (simp only:)
next
  case ne: False
  show ?thesis
  proof (cases "is_relative (trim x) \<or> \<not> is_http (trim x)")
    case True
    have a: "normalizeMediaUrl U x = trim x"
      unfolding normalizeMediaUrl_def Let_def by (simp only: ne True simp_thms if_True if_False)
    have b: "normalizeMediaUrl U (trim x) = trim x"
      unfolding normalizeMediaUrl_def Let_def trim_idem by (simp only: ne True simp_thms if_True if_False)
    show ?thesis by (simp only: a b)
  next
    case abs: False
    show ?thesis
    proof (cases "new_URL U (trim x)")
      case None
      have "normalizeMediaUrl U x = x"
        unfolding normalizeMediaUrl_def Let_def
        by (simp only: ne abs None simp_thms if_False option.case)
      then show ?thesis by (simp only:)
    next
      case (Some url)
      from abs have r: "\<not> is_relative (trim x)" and h: "is_http (trim x)" by simp_all
      have n: "normalizeMediaUrl U x = rewrite_url U url"
        using ne r h Some by (rule normalize_parsed)
      show ?thesis
        unfolding n using assms(1) h Some assms(2) [unfolded n] by (rule rewrite_fixed)
    qed
  qed
qed

subsection \<open>Drive links on the reference class\<close>

lemma walk_uc: "walk [''uc''] [] = [''uc'']"
  by (simp add: pct_encode_def path_set_code is_single_dot_def is_double_dot_def
      lower_def code_def)

lemma parse_link: "parse_url (drive_direct g) = Some (link_url (ctail g))"
proof -
  let ?t = "ctail g"
  have q: "query_of (CHR ''?'' # ''export=download&id='' @ ?t)
      = Some (''export=download&id=''
          @ pct_encode special_query_set (takeWhile (\<lambda>c. c \<noteq> CHR ''#'') ?t))"
    by (simp add: query_of_def pct_encode_Cons special_query_set_code code_def)
  have f: "after_query (CHR ''?'' # ''export=download&id='' @ ?t)
      = dropWhile (\<lambda>c. c \<noteq> CHR ''#'') ?t"
    by (simp add: after_query_def)
  show ?thesis
    unfolding parse_url_def clean_drive using q f
    by (simp add: drive_direct_def Let_def lower_def is_sep_def in_authority_def in_path_def
        host_ok_code code_def walk_uc link_url_def del: walk.simps)
qed

lemma splitf_head: "\<exists>rest. splitf P s = takeWhile (\<lambda>c. \<not> P c) s # rest"
proof (induction s)
  case Nil
  show ?case by simp
next
  case (Cons c s)
  then obtain rest where "splitf P s = takeWhile (\<lambda>c. \<not> P c) s # rest" by blast
  then show ?case by simp
qed

lemma takeWhile_twice:
  "takeWhile P (takeWhile Q s) = takeWhile (\<lambda>c. P c \<and> Q c) s"
  by (induction s) simp_all

lemma escape_amp: "\<not> special_query_set CHR ''&''" "\<not> escape_char CHR ''&''"
  by (simp_all add: special_query_set_code escape_char_def code_def)

lemma id_of_link:
  "sp_get url_ref (link_url t) ''id''
     = Some (form_decode (takeWhile (\<lambda>c. c \<noteq> CHR ''&'' \<and> c \<noteq> CHR ''#'') t))"
proof -
  let ?E = "pct_encode special_query_set (takeWhile (\<lambda>c. c \<noteq> CHR ''#'') t)"
  let ?e = "takeWhile (\<lambda>c. c \<noteq> CHR ''&'') ?E"
  obtain rest where r: "splitf (\<lambda>c. c = CHR ''&'') (''id='' @ ?E)
      = takeWhile (\<lambda>c. \<not> c = CHR ''&'') (''id='' @ ?E) # rest"
    using splitf_head by blast
  have "splitf (\<lambda>c. c = CHR ''&'') (''export=download'' @ CHR ''&'' # (''id='' @ ?E))
      = ''export=download'' # splitf (\<lambda>c. c = CHR ''&'') (''id='' @ ?E)"
    by (rule splitf_append_sep) simp_all
  with r have sp: "splitf (\<lambda>c. c = CHR ''&'') (''export=download&id='' @ ?E)
      = ''export=download'' # (''id='' @ ?e) # rest"
    by simp
  have p1: "qs_pair ''export=download'' = (''export'', ''download'')"
    by (simp add: qs_pair_def form_decode_def)
  have p2: "qs_pair (''id='' @ ?e) = (''id'', form_decode ?e)"
    by (simp add: qs_pair_def form_decode_def)
  have "params (link_url t) = qs_parse (''export=download&id='' @ ?E)"
    by (simp add: params_def link_url_def)
  also have "\<dots> = map qs_pair
      (filter (\<lambda>sq. sq \<noteq> []) (''export=download'' # (''id='' @ ?e) # rest))"
    by (simp only: qs_parse_def sp)
  also have "\<dots> = (''export'', ''download'') # (''id'', form_decode ?e)
          # map qs_pair (filter (\<lambda>sq. sq \<noteq> []) rest)"
    using p1 p2 by simp
  finally have "params (link_url t)
      = (''export'', ''download'') # (''id'', form_decode ?e)
          # map qs_pair (filter (\<lambda>sq. sq \<noteq> []) rest)" .
  then have "sp_get url_ref (link_url t) ''id'' = Some (form_decode ?e)"
    by (simp add: url_ref_def)
  moreover have "?e = pct_encode special_query_set
      (takeWhile (\<lambda>c. c \<noteq> CHR ''&'') (takeWhile (\<lambda>c. c \<noteq> CHR ''#'') t))"
    using escape_amp by (rule takeWhile_encode)
  ultimately show ?thesis
    by (simp add: form_decode_encoded [OF unreserved_query] takeWhile_twice)
qed

lemma href_link: "href (link_url t) = drive_direct (serial t)"
proof -
  define d where "d = dropWhile (\<lambda>c. c \<noteq> CHR ''#'') t"
  have "href (link_url t)
      = drive_direct (pct_encode special_query_set (takeWhile (\<lambda>c. c \<noteq> CHR ''#'') t)
         @ (case fragment_of d of None \<Rightarrow> [] | Some f \<Rightarrow> CHR ''#'' # f))"
    by (simp add: href_def link_url_def path_string_def drive_direct_def d_def)
  moreover have "(case fragment_of d of None \<Rightarrow> [] | Some f \<Rightarrow> CHR ''#'' # f)
      = (case d of [] \<Rightarrow> [] | c # r \<Rightarrow> CHR ''#'' # pct_encode fragment_set r)"
    by (cases d) (simp_all add: fragment_of_def)
  ultimately show ?thesis unfolding serial_def d_def by (simp only:)
qed

lemma rewrite_link:
  "rewrite_url url_ref (link_url t) =
     (let v = form_decode (takeWhile (\<lambda>c. c \<noteq> CHR ''&'' \<and> c \<noteq> CHR ''#'') t)
      in if v \<noteq> [] then drive_direct v else href (link_url t))"
proof -
  have h: "hostname url_ref (link_url t) = ''drive.google.com''"
    by (simp add: url_ref_def link_url_def)
  have p: "path_id (pathname url_ref (link_url t)) = None"
    by (simp add: url_ref_def link_url_def path_string_def)
  have s: "toString url_ref (link_url t) = href (link_url t)"
    by (simp add: url_ref_def)
  have d: "\<not> str_includes ''drive.google.com'' ''dropbox.com''"
    "str_includes ''drive.google.com'' ''drive.google.com''"
    by simp_all
  show ?thesis
    unfolding rewrite_url_def Let_def h p s id_of_link
    by (simp only: d if_True if_False option.case)
qed

lemma normalize_link:
  "normalizeMediaUrl url_ref (drive_direct fid) = drive_direct (reread fid)"
proof -
  let ?g = "strip_back ws_seqs fid"
  have "new_URL url_ref (trim (drive_direct fid)) = Some (link_url (ctail ?g))"
    by (simp add: url_ref_def trim_drive parse_link)
  then have "normalizeMediaUrl url_ref (drive_direct fid) = rewrite_url url_ref (link_url (ctail ?g))"
    by (intro normalize_parsed) (simp_all add: trim_drive link_facts)
  also have "\<dots> = drive_direct (reread fid)"
    by (simp add: rewrite_link reread_def Let_def href_link)
  finally show ?thesis .
qed

lemma drive_direct_inject: "(drive_direct a = drive_direct b) = (a = b)"
  by (simp add: drive_direct_def)

lemma reread_alt:
  "reread fid =
     (if form_decode (takeWhile (\<lambda>c. c \<noteq> CHR ''&'' \<and> c \<noteq> CHR ''#'')
           (ctail (strip_back ws_seqs fid))) \<noteq> []
      then form_decode (takeWhile (\<lambda>c. c \<noteq> CHR ''&'' \<and> c \<noteq> CHR ''#'')
           (ctail (strip_back ws_seqs fid)))
      else serial (ctail (strip_back ws_seqs fid)))"
  by (simp add: reread_def Let_def)

lemma reread_param:
  assumes "empty_param fid"
  shows "(reread fid = fid) = (serial fid = fid)"
proof
  let ?R = "\<lambda>c. c \<noteq> CHR ''&'' \<and> c \<noteq> CHR ''#''"
  let ?t = "ctail (strip_back ws_seqs fid)"
  let ?v = "form_decode (takeWhile ?R ?t)"
  assume r: "reread fid = fid"
  have "?v = []"
  proof (rule ccontr)
    assume "?v \<noteq> []"
    with r have v: "?v = fid" by (simp add: reread_alt)
    then have "\<forall>x \<in> set fid. ?R x \<and> \<not> tab_or_newline x" by (rule read_full(3))
    moreover from v \<open>?v \<noteq> []\<close> have "fid \<noteq> []" by simp
    ultimately show False using assms by (cases fid) (auto simp: empty_param_Cons)
  qed
  with r have s: "serial ?t = fid" by (simp add: reread_alt)
  then have "\<forall>x \<in> set fid. plain x" using serial_plain [of _ ?t] by simp
  then have "?t = fid" by (rule plain_kept)
  with s show "serial fid = fid" by simp
next
  assume s: "serial fid = fid"
  then have "\<forall>x \<in> set fid. plain x" using serial_plain [of _ fid] by simp
  then have t: "ctail (strip_back ws_seqs fid) = fid" by (rule plain_kept)
  have "takeWhile (\<lambda>c. c \<noteq> CHR ''&'' \<and> c \<noteq> CHR ''#'') fid = []"
    using assms by (cases fid) (auto simp: empty_param_Cons)
  then show "reread fid = fid"
    by (simp add: reread_alt t s form_decode_def)
qed

lemma reread_value:
  assumes "\<not> empty_param fid"
  shows "(reread fid = fid) =
     ((\<forall>x \<in> set fid. x \<notin> set ''#&+'' \<and> \<not> tab_or_newline x)
      \<and> \<not> has_escape fid \<and> \<not> ends_blank fid)"
proof
  let ?R = "\<lambda>c. c \<noteq> CHR ''&'' \<and> c \<noteq> CHR ''#''"
  let ?t = "ctail (strip_back ws_seqs fid)"
  let ?v = "form_decode (takeWhile ?R ?t)"
  from assms obtain c cs where fid: "fid = c # cs" and c: "?R c"
    by (cases fid) (auto simp: empty_param_def)
  assume r: "reread fid = fid"
  have "?v \<noteq> []"
  proof
    assume e: "?v = []"
    with r have s: "serial ?t = fid" by (simp add: reread_alt)
    then have "\<forall>x \<in> set fid. plain x" using serial_plain [of _ ?t] by simp
    then have "?t = fid" by (rule plain_kept)
    then have "takeWhile ?R ?t \<noteq> []" using fid c by simp
    with e show False by (simp add: form_decode_empty)
  qed
  with r have v: "?v = fid" by (simp add: reread_alt)
  note f = read_full [OF v]
  have "CHR ''+'' \<notin> set fid \<and> \<not> has_escape fid"
    using f(5) form_decode_fixed [of fid] by blast
  moreover from f(1) f(4) have "\<not> ends_blank fid"
    by (auto simp: ends_blank_def strip_back_fixed)
  ultimately show "(\<forall>x \<in> set fid. x \<notin> set ''#&+'' \<and> \<not> tab_or_newline x)
      \<and> \<not> has_escape fid \<and> \<not> ends_blank fid"
    using f(3) by auto
next
  assume "(\<forall>x \<in> set fid. x \<notin> set ''#&+'' \<and> \<not> tab_or_newline x)
      \<and> \<not> has_escape fid \<and> \<not> ends_blank fid"
  with assms have safe: "id_safe fid" by (simp add: id_safe_def list_all_iff)
  note f = safe_value [OF safe assms]
  from f(1) f(5) have "form_decode fid \<noteq> []" by simp
  then show "reread fid = fid"
    by (simp add: reread_alt f(2) f(3) f(4) f(5))
qed

lemma reread_fixed: "(reread fid = fid) = id_safe fid"
proof (cases "empty_param fid")
  case True
  then have "id_safe fid = (serial fid = fid)"
    unfolding serial_fixed by (simp add: id_safe_def)
  with reread_param [OF True] show ?thesis by simp
next
  case False
  then have "id_safe fid =
      ((\<forall>x \<in> set fid. x \<notin> set ''#&+'' \<and> \<not> tab_or_newline x)
       \<and> \<not> has_escape fid \<and> \<not> ends_blank fid)"
    by (simp add: id_safe_def list_all_iff)
  with reread_value [OF False] show ?thesis by simp
qed

lemma link_fixed:
  "(normalizeMediaUrl url_ref (drive_direct fid) = drive_direct fid) = id_safe fid"
  by (simp add: normalize_link drive_direct_inject reread_fixed)

subsection \<open>The reference class satisfies the laws\<close>

lemma href_nonempty: "valid_url u \<Longrightarrow> href u \<noteq> []"
  by (auto simp: href_def valid_url_def)

lemma href_is_http: "valid_url u \<Longrightarrow> is_http (href u)"
  by (auto simp: href_def valid_url_def is_http_def lower_def)

lemma href_not_relative: "valid_url u \<Longrightarrow> \<not> is_relative (href u)"
  by (auto simp: href_def valid_url_def is_relative_def)

lemma ref_stable:
  assumes "valid_url u"
  shows "url_stable url_ref u"
proof -
  have ne: "href u \<noteq> []" using assms by (rule href_nonempty)
  then have "plain (hd (href u))" and "plain (last (href u))"
    using href_plain [OF assms] by simp_all
  with ne have "trim (href u) = href u" by (rule trim_plain)
  then show ?thesis
    using href_is_http [OF assms] href_not_relative [OF assms] parse_href [OF assms]
    by (simp add: url_stable_def url_ref_def)
qed

lemma join_amp_chars:
  "x \<in> set (join_amp xs) \<Longrightarrow> x = CHR ''&'' \<or> (\<exists>y \<in> set xs. x \<in> set y)"
  by (induction xs rule: join_amp.induct) auto

lemma qs_serialize_chars:
  assumes "x \<in> set (qs_serialize l)"
  shows "\<not> special_query_set x"
proof -
  from assms have "x = CHR ''&''
      \<or> (\<exists>y \<in> set (map (\<lambda>(n, v). form_encode n @ CHR ''='' # form_encode v) l). x \<in> set y)"
    unfolding qs_serialize_def by (rule join_amp_chars)
  then have "x = CHR ''&'' \<or> x = CHR ''='' \<or> form_char x"
    using form_encode_chars by fastforce
  then show ?thesis
    by (auto simp: special_query_set_code form_char_def form_safe_code code_def)
qed

lemma valid_set_query:
  "valid_url u \<Longrightarrow> valid_url (u\<lparr> u_query := Some (qs_serialize l) \<rparr>)"
  by (simp add: valid_url_def qs_serialize_chars)

lemma params_set_query: "params (u\<lparr> u_query := Some (qs_serialize l) \<rparr>) = l"
  by (simp add: params_def qs_parse_serialize)

lemma url_ref_laws: "url_laws url_ref"
  unfolding url_laws_def
proof (intro conjI allI impI)
  fix s u k v
  assume "is_http s \<and> new_URL url_ref s = Some u"
  then have "parse_url s = Some u" by (simp add: url_ref_def)
  then have v: "valid_url u" by (rule parse_url_valid)
  then show "url_stable url_ref u" by (rule ref_stable)
  have "valid_url (u\<lparr> u_query := Some (qs_serialize (set_pair k v (params u))) \<rparr>)"
    using v by (rule valid_set_query)
  then have "url_stable url_ref (u\<lparr> u_query := Some (qs_serialize (set_pair k v (params u))) \<rparr>)"
    by (rule ref_stable)
  then show "url_stable url_ref (sp_set url_ref u k v)" by (simp add: url_ref_def)
next
  fix u :: url and k v
  show "hostname url_ref (sp_set url_ref u k v) = hostname url_ref u"
    by (simp add: url_ref_def)
next
  fix u :: url and k v k'
  show "sp_has url_ref (sp_set url_ref u k v) k' = (k' = k \<or> sp_has url_ref u k')"
    by (simp add: url_ref_def params_set_query has_set_pair)
next
  fix u :: url and k v
  show "sp_set url_ref (sp_set url_ref u k v) k v = sp_set url_ref u k v"
    by (simp add: url_ref_def params_set_query set_pair_idem)
next
  fix fid
  assume safe: "id_safe fid"
  have c: "ctail fid = fid"
  proof (cases "empty_param fid")
    case True
    with safe have "\<forall>x \<in> set fid. plain x" by (rule safe_param(2))
    then show ?thesis by (rule plain_ctail)
  next
    case False
    with safe show ?thesis by (rule safe_value(3))
  qed
  have 1: "new_URL url_ref (drive_direct fid) = Some (link_url fid)"
    using parse_link [of fid] by (simp add: url_ref_def c)
  have 2: "hostname url_ref (link_url fid) = ''drive.google.com''"
    by (simp add: url_ref_def link_url_def)
  have 3: "path_id (pathname url_ref (link_url fid)) = None"
    by (simp add: url_ref_def link_url_def path_string_def)
  have 4: "if empty_param fid
      then sp_get url_ref (link_url fid) ''id'' = Some []
        \<and> toString url_ref (link_url fid) = drive_direct fid
      else sp_get url_ref (link_url fid) ''id'' = Some fid"
  proof (cases "empty_param fid")
    case True
    note f = safe_param [OF safe True]
    have "toString url_ref (link_url fid) = drive_direct fid"
      by (simp add: url_ref_def href_link f(1))
    moreover have "sp_get url_ref (link_url fid) ''id'' = Some []"
      by (simp add: id_of_link f(3) form_decode_def)
    ultimately show ?thesis using True by simp
  next
    case False
    note f = safe_value [OF safe False]
    have "sp_get url_ref (link_url fid) ''id'' = Some fid"
      by (simp add: id_of_link f(4) f(5))
    with False show ?thesis by simp
  qed
  from 1 2 3 4 show "\<exists>u. new_URL url_ref (drive_direct fid) = Some u
       \<and> hostname url_ref u = ''drive.google.com''
       \<and> path_id (pathname url_ref u) = None
       \<and> (if empty_param fid
           then sp_get url_ref u ''id'' = Some [] \<and> toString url_ref u = drive_direct fid
           else sp_get url_ref u ''id'' = Some fid)"
    by blast
qed
section \<open>The media URL normaliser: claims\<close>

lemma ev_dropbox:
  "normalizeMediaUrl url_ref ''https://www.dropbox.com/s/abc/mon.mp3?dl=0''
     = ''https://www.dropbox.com/s/abc/mon.mp3?dl=1''"
  by code_simp

lemma ev_drive:
  "normalizeMediaUrl url_ref ''https://drive.google.com/file/d/FILEID/view?usp=sharing''
     = ''https://drive.google.com/uc?export=download&id=FILEID''"
  by code_simp

lemma ev_plus_first:
  "normalizeMediaUrl url_ref ''https://drive.google.com/file/d/a+b/view''
     = ''https://drive.google.com/uc?export=download&id=a+b''"
  by code_simp

lemma ev_plus_second:
  "normalizeMediaUrl url_ref ''https://drive.google.com/uc?export=download&id=a+b''
     = ''https://drive.google.com/uc?export=download&id=a b''"
  by code_simp

text \<open>
  Three more of the source's self-tests on the reference class: the Drive link with the
  id in the query, an absolute URL that is already in normal form, and a relative path
  without a leading slash.
\<close>

lemma self_test_drive_query:
  "normalizeMediaUrl url_ref ''https://drive.google.com/open?id=ABCDEF''
     = ''https://drive.google.com/uc?export=download&id=ABCDEF''"
  by code_simp

lemma self_test_absolute:
  "normalizeMediaUrl url_ref ''https://example.com/t.mp3'' = ''https://example.com/t.mp3''"
  by code_simp

lemma self_test_plain_relative:
  "normalizeMediaUrl url_ref ''audio/mon.mp3'' = ''audio/mon.mp3''"
  by code_simp

lemma normalize_empty: "normalizeMediaUrl U [] = []"
  unfolding normalizeMediaUrl_def Let_def by (simp only: trim_Nil simp_thms if_True)

lemma normalize_relative:
  assumes "trim x = x" and "x \<noteq> []" and "is_relative x"
  shows "normalizeMediaUrl U x = x"
  unfolding normalizeMediaUrl_def Let_def by (simp only: assms simp_thms if_True if_False)

lemma trim_audio: "trim ''/audio/mon.mp3'' = ''/audio/mon.mp3''"
  by (rule trim_plain) (simp_all add: plain_def code_def)

text \<open>
  A space in the id is escaped by the parser and read back as a space: the link with
  the id \<open>a b\<close> is a fixed point. The ids below are safe or unsafe as described above.
\<close>

lemma ev_space_first:
  "normalizeMediaUrl url_ref ''https://drive.google.com/open?id=a%20b''
     = ''https://drive.google.com/uc?export=download&id=a b''"
  by code_simp

lemma ev_space_second:
  "normalizeMediaUrl url_ref ''https://drive.google.com/uc?export=download&id=a b''
     = ''https://drive.google.com/uc?export=download&id=a b''"
  by code_simp

lemma safe_examples:
  "id_safe ''FILEID''" "id_safe ''a b''" "id_safe [CHR ''a'', CHR 0x27, CHR ''b'']"
  "id_safe ''a%zz''" "id_safe ''&x''"
  "\<not> id_safe ''a+b''" "\<not> id_safe ''a%41b''" "\<not> id_safe ''a&b''" "\<not> id_safe ''a#b''"
  "\<not> id_safe ''a ''" "\<not> id_safe [CHR ''a'', CHR 0x09, CHR ''b'']"
  by code_simp+

text \<open>
  Claim C6, as the source has it. Normalising twice gives what normalising once gives,
  unless the normal form is a Drive direct-download link whose id is not \<open>id_safe\<close>.

  First part: on every \<open>URL\<close> class that satisfies \<open>url_laws\<close>, an input whose normal form
  is no such link is normalised to a fixed point. This covers every input that is passed
  through or returned unchanged, every input with a Dropbox host, every other absolute
  URL, and the Drive inputs with a safe id.

  Second part: on the reference class the exception is exact. Normalising twice gives
  what normalising once gives if and only if the normal form is no Drive direct-download
  link with an unsafe id. The Drive branch pastes the id into the query of the link as it
  is, and an unsafe id is one that the next pass reads differently.
\<close>

theorem normalize_idempotent:
  "(url_laws U \<longrightarrow>
      (\<forall>fid. normalizeMediaUrl U x = drive_direct fid \<longrightarrow> id_safe fid) \<longrightarrow>
      normalizeMediaUrl U (normalizeMediaUrl U x) = normalizeMediaUrl U x) \<and>
   (normalizeMediaUrl url_ref (normalizeMediaUrl url_ref y) = normalizeMediaUrl url_ref y)
     = (\<forall>fid. normalizeMediaUrl url_ref y = drive_direct fid \<longrightarrow> id_safe fid)"
proof (intro conjI impI)
  assume "url_laws U"
    and "\<forall>fid. normalizeMediaUrl U x = drive_direct fid \<longrightarrow> id_safe fid"
  then show "normalizeMediaUrl U (normalizeMediaUrl U x) = normalizeMediaUrl U x"
    by (rule normalize_if_safe)
next
  show "(normalizeMediaUrl url_ref (normalizeMediaUrl url_ref y) = normalizeMediaUrl url_ref y)
     = (\<forall>fid. normalizeMediaUrl url_ref y = drive_direct fid \<longrightarrow> id_safe fid)"
  proof
    assume i: "normalizeMediaUrl url_ref (normalizeMediaUrl url_ref y)
        = normalizeMediaUrl url_ref y"
    show "\<forall>fid. normalizeMediaUrl url_ref y = drive_direct fid \<longrightarrow> id_safe fid"
    proof (intro allI impI)
      fix fid assume n: "normalizeMediaUrl url_ref y = drive_direct fid"
      with i have "normalizeMediaUrl url_ref (drive_direct fid) = drive_direct fid"
        by simp
      then show "id_safe fid" by (simp only: link_fixed)
    qed
  next
    assume "\<forall>fid. normalizeMediaUrl url_ref y = drive_direct fid \<longrightarrow> id_safe fid"
    with url_ref_laws
    show "normalizeMediaUrl url_ref (normalizeMediaUrl url_ref y) = normalizeMediaUrl url_ref y"
      by (rule normalize_if_safe)
  qed
qed

text \<open>
  A Drive link with a \<open>+\<close> in the id: the first pass copies \<open>a+b\<close> from the path into
  the query, where the second pass reads it as \<open>a b\<close>.
\<close>

theorem normalize_idempotent_counterexample:
  "normalizeMediaUrl url_ref
     (normalizeMediaUrl url_ref ''https://drive.google.com/file/d/a+b/view'')
   \<noteq> normalizeMediaUrl url_ref ''https://drive.google.com/file/d/a+b/view''"
  by (simp add: ev_plus_first ev_plus_second)

text \<open>
  The Drive link of the specification's scenario, with the safe id \<open>FILEID\<close>, on the
  reference class.
\<close>

theorem normalize_idempotent_witness:
  "url_laws url_ref \<and>
   normalizeMediaUrl url_ref ''https://drive.google.com/file/d/FILEID/view?usp=sharing''
     = drive_direct ''FILEID'' \<and>
   id_safe ''FILEID'' \<and>
   normalizeMediaUrl url_ref
     (normalizeMediaUrl url_ref ''https://drive.google.com/file/d/FILEID/view?usp=sharing'')
   = normalizeMediaUrl url_ref ''https://drive.google.com/file/d/FILEID/view?usp=sharing''"
proof -
  let ?x = "''https://drive.google.com/file/d/FILEID/view?usp=sharing''"
  have n: "normalizeMediaUrl url_ref ?x = drive_direct ''FILEID''"
    by (simp add: ev_drive drive_direct_def)
  have s: "id_safe ''FILEID''" by (rule safe_examples(1))
  have "\<forall>fid. normalizeMediaUrl url_ref ?x = drive_direct fid \<longrightarrow> id_safe fid"
    using s by (simp add: n drive_direct_inject)
  then have "normalizeMediaUrl url_ref (normalizeMediaUrl url_ref ?x)
      = normalizeMediaUrl url_ref ?x"
    by (rule normalize_idempotent [of url_ref ?x ?x, THEN conjunct1, THEN mp,
          OF url_ref_laws, THEN mp])
  with url_ref_laws n s show ?thesis by (intro conjI)
qed

text \<open>
  Claim C7. With the reference \<open>URL\<close> class, the Dropbox share link of the scenario
  normalises to a link that contains \<open>dl=1\<close>, and the Drive link to the direct-download
  link with \<open>id=FILEID\<close>. Whatever the \<open>URL\<close> class, the empty string normalises to the
  empty string and the relative path \<open>/audio/mon.mp3\<close> to itself.
\<close>

theorem normalize_scenarios:
  "(str_includes
      (normalizeMediaUrl url_ref ''https://www.dropbox.com/s/abc/mon.mp3?dl=0'') ''dl=1''
    \<or> str_includes
      (normalizeMediaUrl url_ref ''https://www.dropbox.com/s/abc/mon.mp3?dl=0'') ''raw=1'') \<and>
   normalizeMediaUrl url_ref ''https://drive.google.com/file/d/FILEID/view?usp=sharing''
     = ''https://drive.google.com/uc?export=download&id=FILEID'' \<and>
   str_includes ''https://drive.google.com/uc?export=download&id=FILEID'' ''id=FILEID'' \<and>
   normalizeMediaUrl U [] = [] \<and>
   normalizeMediaUrl U ''/audio/mon.mp3'' = ''/audio/mon.mp3''"
proof (intro conjI)
  have "str_includes ''https://www.dropbox.com/s/abc/mon.mp3?dl=1'' ''dl=1''"
    by simp
  then show "str_includes
      (normalizeMediaUrl url_ref ''https://www.dropbox.com/s/abc/mon.mp3?dl=0'') ''dl=1''
    \<or> str_includes
      (normalizeMediaUrl url_ref ''https://www.dropbox.com/s/abc/mon.mp3?dl=0'') ''raw=1''"
    by (simp only: ev_dropbox simp_thms)
  show "normalizeMediaUrl url_ref ''https://drive.google.com/file/d/FILEID/view?usp=sharing''
     = ''https://drive.google.com/uc?export=download&id=FILEID''"
    by (rule ev_drive)
  show "str_includes ''https://drive.google.com/uc?export=download&id=FILEID'' ''id=FILEID''"
    by simp
  show "normalizeMediaUrl U [] = []"
    by (rule normalize_empty)
  show "normalizeMediaUrl U ''/audio/mon.mp3'' = ''/audio/mon.mp3''"
    by (rule normalize_relative) (simp_all add: trim_audio is_relative_def)
qed

end
